theory Spec2Isabelle
  imports Complex_Main "HOL-Library.Word"
begin

section \<open>Chain data read by the miner (src/src/miner.cpp)\<close>

text \<open>
  Hashes are 256-bit words and block times 32-bit words. Heights are natural numbers:
  the source holds them in \<open>uint32_t\<close> and \<open>int\<close> variables, and the model writes the
  32-bit wrap-around out where the source increments or decrements one.
\<close>

type_synonym uint256 = "256 word"
type_synonym uint32 = "32 word"

record PoSBlockSummary =
  pos_hash :: uint256
  pos_nTime :: uint32
  pos_height :: nat

text \<open>
  What \<open>ReadBlockFromDisk\<close> yields for a block index: the two members of \<open>CBlock\<close> that
  \<open>GetListOfPoSInfo\<close> reads.
\<close>

record DiskBlock =
  IsProofOfStake :: bool
  posBlocksAudited :: "PoSBlockSummary list"

text \<open>
  A block index of the active chain. \<open>ReadBlockFromDisk\<close> is \<open>None\<close> when the read
  fails.
\<close>

record CBlockIndex =
  GetBlockHash :: uint256
  IsPoABlockByVersion :: bool
  HeaderTime :: uint32
  ReadBlockFromDisk :: "DiskBlock option"

text \<open>
  The constants of \<open>Params()\<close> used by the miner; \<open>COIN\<close> (amount.h) is carried along
  with them since its declaration is not part of the source at hand.
\<close>

record ChainParams =
  START_POA_BLOCK :: nat
  LAST_POW_BLOCK :: nat
  MAX_NUM_POS_BLOCKS_AUDITED :: nat
  HardFork :: nat
  COIN :: int

datatype miner_error = NullPointer | ReadBlockFailed | EmptyAuditList

text \<open>
  \<open>chainActive[h]\<close>: \<open>CChain::operator[]\<close> takes an \<open>int\<close> and returns the null pointer
  for a negative height or one beyond the tip, so a \<open>uint32_t\<close> of \<open>2^31\<close> or more
  yields null. Every use in the source dereferences the result at once.
\<close>

definition chain_at :: "CBlockIndex list \<Rightarrow> nat \<Rightarrow> CBlockIndex option" where
  "chain_at c h = (if h < 2 ^ 31 \<and> h < length c then Some (c ! h) else None)"

section \<open>GetListOfPoSInfo\<close>

text \<open>
  The backward scan for the previous PoA block (lines 107-113). The result is the final
  value of \<open>nloopIdx\<close>; \<open>nloopIdx--\<close> wraps at zero.
\<close>

function find_prev_poa :: "ChainParams \<Rightarrow> CBlockIndex list \<Rightarrow> nat \<Rightarrow> miner_error + nat" where
  "find_prev_poa P c nloopIdx =
     (if START_POA_BLOCK P \<le> nloopIdx then
        (case chain_at c nloopIdx of
           None \<Rightarrow> Inl NullPointer
         | Some b \<Rightarrow>
             if IsPoABlockByVersion b then Inr nloopIdx
             else find_prev_poa P c ((nloopIdx + 2 ^ 32 - 1) mod 2 ^ 32))
      else Inr nloopIdx)"
  by pat_completeness auto
termination
proof (relation "measure (\<lambda>(P, c, n). if n < 2 ^ 31 then Suc n else 0)")
  show "wf (measure (\<lambda>(P :: ChainParams, c :: CBlockIndex list, n :: nat).
            if n < 2 ^ 31 then Suc n else 0))"
    by simp
next
  fix P :: ChainParams and c :: "CBlockIndex list" and nloopIdx :: nat and b :: CBlockIndex
  assume "chain_at c nloopIdx = Some b"
  then have lt: "nloopIdx < 2 ^ 31"
    by (simp add: chain_at_def split: if_splits)
  show "((P, c, (nloopIdx + 2 ^ 32 - 1) mod 2 ^ 32), (P, c, nloopIdx))
          \<in> measure (\<lambda>(P, c, n). if n < 2 ^ 31 then Suc n else 0)"
  proof (cases "nloopIdx = 0")
    case True
    then show ?thesis by simp
  next
    case False
    with lt have "(nloopIdx + 2 ^ 32 - 1) mod 2 ^ 32 = nloopIdx - 1"
      by (simp add: mod_if)
    with lt False show ?thesis by simp
  qed
qed

declare find_prev_poa.simps [simp del]

text \<open>
  One summary (lines 117-121 and 142-146). \<open>rv\<close> is \<open>ReVerifyPoSBlock\<close> applied to the
  index that \<open>mapBlockIndex\<close> holds for the hash.
\<close>

definition make_summary :: "(uint256 \<Rightarrow> bool) \<Rightarrow> CBlockIndex \<Rightarrow> nat \<Rightarrow> PoSBlockSummary" where
  "make_summary rv b h =
     \<lparr>pos_hash = GetBlockHash b,
      pos_nTime = (if rv (GetBlockHash b) then HeaderTime b else 0),
      pos_height = h\<rparr>"

text \<open>The loop of the first PoA block (lines 116-123).\<close>

function audit_from_pow ::
  "ChainParams \<Rightarrow> (uint256 \<Rightarrow> bool) \<Rightarrow> CBlockIndex list \<Rightarrow> nat \<Rightarrow> PoSBlockSummary list
     \<Rightarrow> miner_error + PoSBlockSummary list" where
  "audit_from_pow P rv c i audits =
     (if i \<le> LAST_POW_BLOCK P + MAX_NUM_POS_BLOCKS_AUDITED P then
        (case chain_at c i of
           None \<Rightarrow> Inl NullPointer
         | Some b \<Rightarrow> audit_from_pow P rv c (i + 1) (audits @ [make_summary rv b i]))
      else Inr audits)"
  by pat_completeness auto
termination
  by (relation "measure (\<lambda>(P, rv, c, i, audits).
        LAST_POW_BLOCK P + MAX_NUM_POS_BLOCKS_AUDITED P + 1 - i)") auto

declare audit_from_pow.simps [simp del]

text \<open>The loop after a previous PoA block (lines 136-154).\<close>

function audit_after_poa ::
  "ChainParams \<Rightarrow> (uint256 \<Rightarrow> bool) \<Rightarrow> CBlockIndex list \<Rightarrow> nat \<Rightarrow> nat \<Rightarrow> PoSBlockSummary list
     \<Rightarrow> miner_error + PoSBlockSummary list" where
  "audit_after_poa P rv c currentHeight nextAuditHeight audits =
     (if nextAuditHeight \<le> currentHeight then
        (case chain_at c nextAuditHeight of
           None \<Rightarrow> Inl NullPointer
         | Some posIndex \<Rightarrow>
             (case ReadBlockFromDisk posIndex of
                None \<Rightarrow> Inl ReadBlockFailed
              | Some posBlock \<Rightarrow>
                  (let audits' =
                         (if IsProofOfStake posBlock
                          then audits @ [make_summary rv posIndex nextAuditHeight]
                          else audits)
                   in if length audits' = MAX_NUM_POS_BLOCKS_AUDITED P then Inr audits'
                      else audit_after_poa P rv c currentHeight
                             ((nextAuditHeight + 1) mod 2 ^ 32) audits')))
      else Inr audits)"
  by pat_completeness auto
termination
proof (relation "measure (\<lambda>(P, rv, c, cur, nxt, audits). cur + 1 - nxt)")
  show "wf (measure (\<lambda>(P :: ChainParams, rv :: uint256 \<Rightarrow> bool, c :: CBlockIndex list,
            cur :: nat, nxt :: nat, audits :: PoSBlockSummary list). cur + 1 - nxt))"
    by simp
next
  fix P :: ChainParams and rv :: "uint256 \<Rightarrow> bool" and c :: "CBlockIndex list"
    and currentHeight nextAuditHeight :: nat and audits audits' :: "PoSBlockSummary list"
    and posIndex :: CBlockIndex
  assume le: "nextAuditHeight \<le> currentHeight"
    and at: "chain_at c nextAuditHeight = Some posIndex"
  from at have "nextAuditHeight < 2 ^ 31"
    by (simp add: chain_at_def split: if_splits)
  then have "(nextAuditHeight + 1) mod 2 ^ 32 = nextAuditHeight + 1"
    by simp
  with le show "((P, rv, c, currentHeight, (nextAuditHeight + 1) mod 2 ^ 32, audits'),
                 (P, rv, c, currentHeight, nextAuditHeight, audits))
                  \<in> measure (\<lambda>(P, rv, c, cur, nxt, audits). cur + 1 - nxt)"
    by simp
qed

declare audit_after_poa.simps [simp del]

text \<open>
  \<open>GetListOfPoSInfo\<close> (lines 103-158): the returned \<open>nloopIdx\<close> and the audit vector,
  or the failure. \<open>back()\<close> of an empty audit vector is undefined in the source and is an
  error value here.
\<close>

definition GetListOfPoSInfo ::
  "ChainParams \<Rightarrow> (uint256 \<Rightarrow> bool) \<Rightarrow> CBlockIndex list \<Rightarrow> nat \<Rightarrow> PoSBlockSummary list
     \<Rightarrow> miner_error + (nat \<times> PoSBlockSummary list)" where
  "GetListOfPoSInfo P rv c currentHeight audits =
     (case find_prev_poa P c currentHeight of
        Inl e \<Rightarrow> Inl e
      | Inr nloopIdx \<Rightarrow>
          if nloopIdx \<le> START_POA_BLOCK P then
            (case audit_from_pow P rv c (LAST_POW_BLOCK P + 1) audits of
               Inl e \<Rightarrow> Inl e
             | Inr audits' \<Rightarrow> Inr (nloopIdx, audits'))
          else if START_POA_BLOCK P < nloopIdx then
            (case chain_at c nloopIdx of
               None \<Rightarrow> Inl NullPointer
             | Some pblockindex \<Rightarrow>
                 (case ReadBlockFromDisk pblockindex of
                    None \<Rightarrow> Inl ReadBlockFailed
                  | Some block \<Rightarrow>
                      if posBlocksAudited block = [] then Inl EmptyAuditList
                      else
                        (let lastAuditedHeight = pos_height (last (posBlocksAudited block));
                             nextAuditHeight = (lastAuditedHeight + 1) mod 2 ^ 32
                         in case audit_after_poa P rv c currentHeight nextAuditHeight audits of
                              Inl e \<Rightarrow> Inl e
                            | Inr audits' \<Rightarrow> Inr (nloopIdx, audits'))))
          else Inr (nloopIdx, audits))"

section \<open>Transactions, blocks and templates\<close>

text \<open>
  Scripts are lists of pushed items; \<open>COINBASE_FLAGS\<close> is one opaque item. Key images
  and byte strings are opaque values that the miner only copies and compares.
\<close>

datatype script_item = ScriptNum int | OP_0 | OP_CHECKSIG | PushData "nat list" | COINBASE_FLAGS

type_synonym CScript = "script_item list"
type_synonym CKeyImage = nat
type_synonym CAmount = int

record COutPoint =
  out_hash :: uint256
  out_n :: nat

record CTxIn =
  prevout :: COutPoint
  keyImage :: CKeyImage
  scriptSig :: CScript

record CTxOut =
  nValue :: CAmount
  scriptPubKey :: CScript
  txPub :: "nat list"
  txPriv :: "nat list"
  maskValue :: "nat list"
  commitment :: "nat list"

datatype tx_type = TX_TYPE_FULL | TX_TYPE_REVEAL_AMOUNT

record CTransaction =
  vin :: "CTxIn list"
  vout :: "CTxOut list"
  nTxFee :: CAmount
  txType :: tx_type

record CBlock =
  nVersion :: int
  hashPrevBlock :: uint256
  hashMerkleRoot :: uint256
  nTime :: uint32
  nBits :: uint32
  nNonce :: uint32
  nAccumulatorCheckpoint :: uint256
  payee :: CScript
  vtx :: "CTransaction list"
  vchBlockSig :: "nat list"
  blk_posBlocksAudited :: "PoSBlockSummary list"
  hashPrevPoABlock :: uint256
  hashPoAMerkleRoot :: uint256
  minedHash :: uint256

record CBlockTemplate =
  block :: CBlock
  vTxFees :: "CAmount list"
  vTxSigOps :: "int list"

definition null_outpoint :: COutPoint where
  "null_outpoint = \<lparr>out_hash = 0, out_n = 2 ^ 32 - 1\<rparr>"

definition empty_txout :: CTxOut where
  "empty_txout = \<lparr>nValue = 0, scriptPubKey = [], txPub = [], txPriv = [],
                    maskValue = [], commitment = []\<rparr>"

definition null_block :: CBlock where
  "null_block = \<lparr>nVersion = 0, hashPrevBlock = 0, hashMerkleRoot = 0, nTime = 0, nBits = 0,
                   nNonce = 0, nAccumulatorCheckpoint = 0, payee = [], vtx = [],
                   vchBlockSig = [], blk_posBlocksAudited = [], hashPrevPoABlock = 0,
                   hashPoAMerkleRoot = 0, minedHash = 0\<rparr>"

text \<open>
  The coinbase both builders start from (lines 188-194 and 525-533): one null input, one
  output paying \<open>scriptPubKeyIn\<close> with the transaction keys copied in.
\<close>

definition new_coinbase :: "CScript \<Rightarrow> nat list \<Rightarrow> nat list \<Rightarrow> CTransaction" where
  "new_coinbase scriptPubKeyIn txPubIn txPrivIn =
     \<lparr>vin = [\<lparr>prevout = null_outpoint, keyImage = 0, scriptSig = []\<rparr>],
      vout = [empty_txout\<lparr>scriptPubKey := scriptPubKeyIn, txPub := txPubIn, txPriv := txPrivIn\<rparr>],
      nTxFee = 0,
      txType = TX_TYPE_FULL\<rparr>"

section \<open>External collaborators\<close>

text \<open>
  Everything the miner calls outside miner.cpp, as parameters. \<open>'v\<close> is the coins
  view. Functions of the chain state are taken at the state of the call.
  Modelled from the spec: the wallet's \<open>EncodeTxOutAmount\<close> ("encode the output amount
  against the shared secret") and \<open>CreateCommitment\<close> ("create a Pedersen commitment
  with a zero blinding factor") write one member of the output each, the encoded amount
  and the commitment, and leave its value and script alone; they return that member
  here, \<open>CreateCommitment\<close> returning \<open>None\<close> for \<open>false\<close>.
  \<open>MakeShnorrSignature\<close> returns the signed transaction and \<open>SignBlock\<close> the signed
  block, or \<open>None\<close> for \<open>false\<close>; the flag of \<open>SignBlock\<close> says whether
  \<open>AddComputedPrivateKey\<close> has been called on the wallet before. \<open>FeeRate\<close> is the
  constructor \<open>CFeeRate(fee, size)\<close>, and \<open>ApplyDeltas\<close> yields the priority it leaves in
  its reference argument. The \<open>GetArg\<close> members are the values \<open>GetArg\<close> returns, the
  defaults included.
\<close>

record 'v Externals =
  GetAdjustedTime :: int
  GetNextWorkRequired :: "nat \<Rightarrow> uint32 \<Rightarrow> uint32"
  GetMedianTimePast :: int
  AllowMinDifficultyBlocks :: bool
  MineBlocksOnDemand :: bool
  GetBlockValue :: "nat \<Rightarrow> CAmount"
  GetLegacySigOpCount :: "CTransaction \<Rightarrow> int"
  BlockMerkleRoot :: "CTransaction list \<Rightarrow> uint256"
  ComputePoAMerkleTree :: "PoSBlockSummary list \<Rightarrow> uint256"
  ComputeMinedHash :: "CBlock \<Rightarrow> uint256"
  ScriptSize :: "CScript \<Rightarrow> nat"
  POA_BLOCK_VERSION :: int
  ReVerifyPoSBlock :: "uint256 \<Rightarrow> bool"
  EncodeTxOutAmount :: "CAmount \<Rightarrow> nat list \<Rightarrow> nat list"
  CreateCommitment :: "CAmount \<Rightarrow> nat list option"
  GetHash :: "CTransaction \<Rightarrow> uint256"
  IsCoinBase :: "CTransaction \<Rightarrow> bool"
  IsCoinStake :: "CTransaction \<Rightarrow> bool"
  IsFinalTx :: "CTransaction \<Rightarrow> nat \<Rightarrow> bool"
  IsSpentKeyImage :: "CKeyImage \<Rightarrow> bool"
  ContainsOutPoint :: "COutPoint \<Rightarrow> bool"
  CheckHaveInputs :: "'v \<Rightarrow> CTransaction \<Rightarrow> bool"
  CheckInputs :: "'v \<Rightarrow> CTransaction \<Rightarrow> bool"
  UpdateCoins :: "CTransaction \<Rightarrow> 'v \<Rightarrow> nat \<Rightarrow> 'v"
  GetSerializeSize :: "CTransaction \<Rightarrow> nat"
  GetPriority :: "CTransaction \<Rightarrow> nat \<Rightarrow> real"
  ApplyDeltas :: "uint256 \<Rightarrow> real \<Rightarrow> real"
  FeeRate :: "CAmount \<Rightarrow> nat \<Rightarrow> int"
  AllowFree :: "real \<Rightarrow> bool"
  FillBlockPayee :: "CTransaction \<Rightarrow> CAmount \<Rightarrow> bool \<Rightarrow> CTransaction"
  CreateCoinStake :: "uint32 \<Rightarrow> int \<Rightarrow> (CTransaction \<times> uint32) option"
  MakeShnorrSignature :: "CTransaction \<Rightarrow> CTransaction option"
  VerifyShnorrKeyImageTx :: "CTransaction \<Rightarrow> bool"
  SignBlock :: "bool \<Rightarrow> CBlock \<Rightarrow> CBlock option"
  GetArg_blockversion :: int
  GetArg_blockmaxsize :: int
  GetArg_blockprioritysize :: int
  GetArg_blockminsize :: int
  MAX_BLOCK_SIZE_CURRENT :: nat
  IsProofOfWork :: "CBlock \<Rightarrow> bool"
  ProcessNewBlock :: "CBlock \<Rightarrow> bool"
  GetBlockHashOf :: "CBlock \<Rightarrow> uint256"

section \<open>CreateNewPoABlock\<close>

datatype build_error = Raised miner_error | AssertFailed | OutOfRange

text \<open>
  The PoA reward (lines 557-562). The source computes \<open>size * 0.5 * COIN\<close> (\<open>0.25\<close> from
  the hard fork on) in double precision and converts to \<open>CAmount\<close>; half and quarter
  multiples of values below \<open>2^53\<close> are exact there, so the result is the truncated
  quotient.
\<close>

definition poa_reward :: "ChainParams \<Rightarrow> nat \<Rightarrow> nat \<Rightarrow> CAmount" where
  "poa_reward P prevHeight n =
     (if HardFork P \<le> prevHeight then (int n * COIN P) div 4 else (int n * COIN P) div 2)"

text \<open>
  \<open>CreateNewPoABlock\<close> (lines 509-607). \<open>Inr None\<close> is the null return; an error is the
  exception \<open>GetListOfPoSInfo\<close> throws, a null dereference or the failed assertion.
\<close>

definition CreateNewPoABlock ::
  "ChainParams \<Rightarrow> 'v Externals \<Rightarrow> CBlockIndex list \<Rightarrow> CScript \<Rightarrow> nat list \<Rightarrow> nat list
     \<Rightarrow> build_error + CBlockTemplate option" where
  "CreateNewPoABlock P e c scriptPubKeyIn txPubIn txPrivIn =
     (if c = [] then Inl (Raised NullPointer)
      else
        let tipHeight = length c - 1; pindexPrev = last c in
        if tipHeight < START_POA_BLOCK P then Inr None
        else
          let txNew = new_coinbase scriptPubKeyIn txPubIn txPrivIn;
              t = (word_of_int (GetAdjustedTime e) :: uint32)
          in
          (case GetListOfPoSInfo P (ReVerifyPoSBlock e) c tipHeight [] of
             Inl err \<Rightarrow> Inl (Raised err)
           | Inr (nprevPoAHeight, audits) \<Rightarrow>
               if audits = [] then Inr None
               else
                 let nReward = poa_reward P tipHeight (length audits);
                     out0 = (hd (vout txNew))\<lparr>nValue := nReward\<rparr>;
                     out1 = out0\<lparr>maskValue := EncodeTxOutAmount e nReward txPubIn\<rparr>
                 in
                 (case CreateCommitment e nReward of
                    None \<Rightarrow> Inr None
                  | Some cm \<Rightarrow>
                      let out2 = out1\<lparr>commitment := cm,
                                       maskValue := EncodeTxOutAmount e nReward txPubIn\<rparr>;
                          nHeight = tipHeight + 1;
                          tx0 = txNew\<lparr>vout := [out2], txType := TX_TYPE_REVEAL_AMOUNT\<rparr>;
                          prevPoA =
                            (if START_POA_BLOCK P \<le> nprevPoAHeight
                             then map_option GetBlockHash (chain_at c nprevPoAHeight)
                             else Some 0)
                      in
                      (case prevPoA of
                         None \<Rightarrow> Inl (Raised NullPointer)
                       | Some hPoA \<Rightarrow>
                           let sig = [ScriptNum (int nHeight), ScriptNum 1, COINBASE_FLAGS];
                               sigops = GetLegacySigOpCount e tx0
                           in
                           if 100 < ScriptSize e sig then Inl AssertFailed
                           else
                             let txCoinbase =
                                   tx0\<lparr>vin := [(hd (vin tx0))\<lparr>scriptSig := sig\<rparr>]\<rparr>;
                                 b1 = null_block
                                   \<lparr>nVersion := POA_BLOCK_VERSION e,
                                    hashPrevBlock := GetBlockHash pindexPrev,
                                    nTime := t,
                                    nBits := GetNextWorkRequired e tipHeight t,
                                    nNonce := 0,
                                    vtx := [txCoinbase],
                                    blk_posBlocksAudited := audits,
                                    hashPrevPoABlock := hPoA\<rparr>;
                                 b2 = b1\<lparr>hashMerkleRoot := BlockMerkleRoot e (vtx b1)\<rparr>;
                                 b3 = b2\<lparr>hashPoAMerkleRoot :=
                                            ComputePoAMerkleTree e (blk_posBlocksAudited b2)\<rparr>;
                                 b4 = b3\<lparr>minedHash := ComputeMinedHash e b3\<rparr>
                             in Inr (Some \<lparr>block = b4, vTxFees = [-1], vTxSigOps = [sigops]\<rparr>)))))"

section \<open>Transaction selection (CreateNewBlock, lines 235-413)\<close>

text \<open>
  An entry of \<open>vecPriority\<close>: priority, fee rate (satoshis per 1000 bytes) and the
  transaction the entry points to. Priorities are \<open>double\<close> in the source and reals here;
  only their order is used.
\<close>

type_synonym TxPriority = "real \<times> int \<times> CTransaction"

text \<open>\<open>TxPriorityCompare::operator()\<close> (lines 80-91).\<close>

definition TxPriorityCompare :: "bool \<Rightarrow> TxPriority \<Rightarrow> TxPriority \<Rightarrow> bool" where
  "TxPriorityCompare byFee a b =
     (if byFee then
        (if fst (snd a) = fst (snd b) then fst a < fst b else fst (snd a) < fst (snd b))
      else
        (if fst a = fst b then fst (snd a) < fst (snd b) else fst a < fst b))"

text \<open>
  The heap. \<open>std::make_heap\<close>, \<open>std::pop_heap\<close> and \<open>std::push_heap\<close> are called on
  \<open>vecPriority\<close> with the comparer; the C++ standard fixes the heap property of their
  result and leaves the place of equal entries to the library. They are taken here as
  the GNU C++ library implements them (\<open>bits/stl_heap.h\<close>), on the vector as a list: an
  assignment to \<open>*(first + i)\<close> is a list update at \<open>i\<close>.

  \<open>__push_heap\<close>: the value moves up from the hole while its parent is less.
\<close>

function push_heap_at :: "('a \<Rightarrow> 'a \<Rightarrow> bool) \<Rightarrow> 'a list \<Rightarrow> nat \<Rightarrow> nat \<Rightarrow> 'a \<Rightarrow> 'a list" where
  "push_heap_at cmp xs holeIndex topIndex v =
     (let parent = (holeIndex - 1) div 2
      in if topIndex < holeIndex \<and> cmp (xs ! parent) v
         then push_heap_at cmp (xs[holeIndex := xs ! parent]) parent topIndex v
         else xs[holeIndex := v])"
  by pat_completeness auto
termination
  by (relation "measure (\<lambda>(cmp, xs, holeIndex, topIndex, v). holeIndex)") auto

declare push_heap_at.simps [simp del]


text \<open>\<open>std::push_heap\<close>: the last entry is pushed up from the last place.\<close>

definition push_heap :: "('a \<Rightarrow> 'a \<Rightarrow> bool) \<Rightarrow> 'a list \<Rightarrow> 'a list" where
  "push_heap cmp xs = push_heap_at cmp xs (length xs - 1) 0 (xs ! (length xs - 1))"


text \<open>
  \<open>__adjust_heap\<close>: the hole moves down to the greater child, the right one when the two
  are equal; with an even length the last parent has a left child only; the value is then
  pushed up from the hole. The indices are signed in the library, where \<open>(len - 2) / 2\<close> is
  negative for an empty range; the test \<open>2 \<le> len\<close> stands for that.
\<close>

function adjust_heap_loop ::
  "('a \<Rightarrow> 'a \<Rightarrow> bool) \<Rightarrow> 'a list \<Rightarrow> nat \<Rightarrow> nat \<Rightarrow> nat \<Rightarrow> 'a list \<times> nat \<times> nat" where
  "adjust_heap_loop cmp xs len holeIndex secondChild =
     (if secondChild < (len - 1) div 2 then
        (let child = 2 * (secondChild + 1);
             child = (if cmp (xs ! child) (xs ! (child - 1)) then child - 1 else child)
         in adjust_heap_loop cmp (xs[holeIndex := xs ! child]) len child child)
      else (xs, holeIndex, secondChild))"
  by pat_completeness auto
termination
  by (relation "measure (\<lambda>(cmp, xs, len, holeIndex, secondChild). len - secondChild)") auto

declare adjust_heap_loop.simps [simp del]

definition adjust_heap :: "('a \<Rightarrow> 'a \<Rightarrow> bool) \<Rightarrow> 'a list \<Rightarrow> nat \<Rightarrow> nat \<Rightarrow> 'a \<Rightarrow> 'a list" where
  "adjust_heap cmp xs holeIndex len v =
     (case adjust_heap_loop cmp xs len holeIndex holeIndex of
        (xs1, holeIndex1, secondChild1) \<Rightarrow>
          if even len \<and> 2 \<le> len \<and> secondChild1 = (len - 2) div 2 then
            (let child = 2 * (secondChild1 + 1)
             in push_heap_at cmp (xs1[holeIndex1 := xs1 ! (child - 1)]) (child - 1) holeIndex v)
          else push_heap_at cmp xs1 holeIndex1 holeIndex v)"


text \<open>
  \<open>std::pop_heap\<close>: the front goes to the last place and the entry that was there is
  sifted into the first \<open>length xs - 1\<close> places. The \<open>pop_back\<close> that follows the call
  in the source is \<open>butlast\<close>.
\<close>

definition pop_heap :: "('a \<Rightarrow> 'a \<Rightarrow> bool) \<Rightarrow> 'a list \<Rightarrow> 'a list" where
  "pop_heap cmp xs =
     (if 1 < length xs then
        (let n = length xs - 1
         in adjust_heap cmp (xs[n := xs ! 0]) 0 n (xs ! n))
      else xs)"


text \<open>\<open>std::make_heap\<close>: every parent is sifted down, from the last parent to the root.\<close>

fun make_heap_loop :: "('a \<Rightarrow> 'a \<Rightarrow> bool) \<Rightarrow> 'a list \<Rightarrow> nat \<Rightarrow> nat \<Rightarrow> 'a list" where
  "make_heap_loop cmp xs len 0 = adjust_heap cmp xs 0 len (xs ! 0)"
| "make_heap_loop cmp xs len (Suc parent) =
     make_heap_loop cmp (adjust_heap cmp xs (Suc parent) len (xs ! Suc parent)) len parent"

definition make_heap :: "('a \<Rightarrow> 'a \<Rightarrow> bool) \<Rightarrow> 'a list \<Rightarrow> 'a list" where
  "make_heap cmp xs =
     (if length xs < 2 then xs else make_heap_loop cmp xs (length xs) ((length xs - 2) div 2))"

record COrphan =
  ptx :: CTransaction
  setDependsOn :: "uint256 set"
  orphan_feeRate :: int
  orphan_dPriority :: real

text \<open>
  The variables of the selection. \<open>vOrphan\<close> is the store of orphans and \<open>mapDependers\<close>
  holds positions in it, as the source holds pointers into the list; a hash without an
  entry maps to the empty list. \<open>sel_vtx\<close>, \<open>sel_vTxFees\<close> and \<open>sel_vTxSigOps\<close> are the
  vectors of the template under construction.
\<close>

record 'v SelectorState =
  vecPriority :: "TxPriority list"
  fSortedByFee :: bool
  nBlockSize :: nat
  nBlockTx :: nat
  nFees :: CAmount
  view :: 'v
  sel_vtx :: "CTransaction list"
  sel_vTxFees :: "CAmount list"
  sel_vTxSigOps :: "int list"
  vOrphan :: "COrphan list"
  mapDependers :: "uint256 \<Rightarrow> nat list"

record BlockLimits =
  nBlockMaxSize :: nat
  nBlockPrioritySize :: nat
  nBlockMinSize :: nat

text \<open>
  Lines 236-249. \<open>GetArg\<close> yields an \<open>int64_t\<close> that is stored in an \<open>unsigned int\<close>, and
  \<open>nBlockMaxSizeNetwork - 1000\<close> is unsigned.
\<close>

definition to_uint :: "int \<Rightarrow> nat" where
  "to_uint x = nat (x mod 2 ^ 32)"

definition block_limits :: "'v Externals \<Rightarrow> BlockLimits" where
  "block_limits e =
     (let nBlockMaxSizeNetwork = MAX_BLOCK_SIZE_CURRENT e mod 2 ^ 32;
          maxSize = max 1000 (min ((nBlockMaxSizeNetwork + 2 ^ 32 - 1000) mod 2 ^ 32)
                                  (to_uint (GetArg_blockmaxsize e)))
      in \<lparr>nBlockMaxSize = maxSize,
          nBlockPrioritySize = min maxSize (to_uint (GetArg_blockprioritysize e)),
          nBlockMinSize = min maxSize (to_uint (GetArg_blockminsize e))\<rparr>)"

text \<open>
  The check of the inputs against the spent key images and the invalid outputs (lines
  276-289); the result is \<open>fKeyImageCheck\<close>. The second test leaves the loop and does not
  touch the flag.
\<close>

fun key_image_check :: "'v Externals \<Rightarrow> CTxIn list \<Rightarrow> bool" where
  "key_image_check e [] = True"
| "key_image_check e (txin # rest) =
     (if IsSpentKeyImage e (keyImage txin) then False
      else if ContainsOutPoint e (prevout txin) then True
      else key_image_check e rest)"

text \<open>
  The check against the key images of this build (lines 310-318): \<open>isDuplicate\<close> and the
  set \<open>keyImages\<close> afterwards.
\<close>

fun note_key_images :: "CTxIn list \<Rightarrow> CKeyImage set \<Rightarrow> bool \<times> CKeyImage set" where
  "note_key_images [] keyImages = (False, keyImages)"
| "note_key_images (txin # rest) keyImages =
     (if keyImage txin \<in> keyImages then (True, keyImages)
      else note_key_images rest (insert (keyImage txin) keyImages))"

text \<open>
  The loop over \<open>mempool.mapTx\<close> (lines 270-321), in the order of the map. The result is
  \<open>vecPriority\<close> and \<open>keyImages\<close>.
\<close>

fun collect_candidates ::
  "'v Externals \<Rightarrow> 'v \<Rightarrow> nat \<Rightarrow> CTransaction list \<Rightarrow> TxPriority list \<times> CKeyImage set
     \<Rightarrow> TxPriority list \<times> CKeyImage set" where
  "collect_candidates e v tipHeight [] acc = acc"
| "collect_candidates e v tipHeight (tx # rest) (vec, keyImages) =
     (if IsCoinBase e tx \<or> IsCoinStake e tx \<or> \<not> IsFinalTx e tx (tipHeight + 1) then
        collect_candidates e v tipHeight rest (vec, keyImages)
      else if \<not> key_image_check e (vin tx) then
        collect_candidates e v tipHeight rest (vec, keyImages)
      else if \<not> CheckHaveInputs e v tx then
        collect_candidates e v tipHeight rest (vec, keyImages)
      else
        (let nTxSize = GetSerializeSize e tx mod 2 ^ 32;
             dPriority = ApplyDeltas e (GetHash e tx) (GetPriority e tx tipHeight);
             feeRate = FeeRate e (nTxFee tx) nTxSize
         in case note_key_images (vin tx) keyImages of
              (True, keyImages') \<Rightarrow> collect_candidates e v tipHeight rest (vec, keyImages')
            | (False, keyImages') \<Rightarrow>
                collect_candidates e v tipHeight rest
                  (vec @ [(dPriority, feeRate, tx)], keyImages')))"

text \<open>
  Lines 401-412, for the orphans registered under the hash of the admitted transaction.
  A position outside the store stands for a pointer the source cannot hold and is
  passed over.
\<close>

fun wake_dependers :: "uint256 \<Rightarrow> nat list \<Rightarrow> 'v SelectorState \<Rightarrow> 'v SelectorState" where
  "wake_dependers h [] s = s"
| "wake_dependers h (p # ps) s =
     (if p < length (vOrphan s) \<and> setDependsOn (vOrphan s ! p) \<noteq> {} then
        (let porphan = (vOrphan s ! p)\<lparr>setDependsOn := setDependsOn (vOrphan s ! p) - {h}\<rparr>;
             s1 = s\<lparr>vOrphan := (vOrphan s)[p := porphan]\<rparr>
         in if setDependsOn porphan = {} then
              wake_dependers h ps
                (s1\<lparr>vecPriority :=
                      push_heap (TxPriorityCompare (fSortedByFee s1))
                        (vecPriority s1 @
                           [(orphan_dPriority porphan, orphan_feeRate porphan, ptx porphan)])\<rparr>)
            else wake_dependers h ps s1)
      else wake_dependers h ps s)"

text \<open>
  One pass of the \<open>while\<close> loop (lines 336-412) on a non-empty \<open>vecPriority\<close>: the front
  of the heap is taken off, and the heap is rebuilt when the order changes. The sums
  are 64-bit; \<open>nFees\<close> is a signed 64-bit amount, whose overflow the source leaves
  undefined, and is an integer here.
\<close>

definition select_step ::
  "'v Externals \<Rightarrow> BlockLimits \<Rightarrow> nat \<Rightarrow> 'v SelectorState \<Rightarrow> 'v SelectorState" where
  "select_step e lims nHeight s =
     (case vecPriority s of
        [] \<Rightarrow> s
      | front # rest \<Rightarrow>
          (let comparer = TxPriorityCompare (fSortedByFee s);
               dPriority = fst front;
               feeRate = fst (snd front);
               tx = snd (snd front);
               s1 = s\<lparr>vecPriority := butlast (pop_heap comparer (vecPriority s))\<rparr>;
               nTxSize = GetSerializeSize e tx mod 2 ^ 32;
               newSize = (nBlockSize s1 + nTxSize) mod 2 ^ 64
           in if nBlockMaxSize lims \<le> newSize then s1
              else if fSortedByFee s1 \<and> feeRate < 5000 \<and> nBlockMinSize lims \<le> newSize then s1
              else
                (let s2 = (if \<not> fSortedByFee s1 \<and>
                              (nBlockPrioritySize lims \<le> newSize \<or> \<not> AllowFree e dPriority)
                           then s1\<lparr>fSortedByFee := True,
                                   vecPriority := make_heap (TxPriorityCompare True) (vecPriority s1)\<rparr>
                           else s1)
                 in if \<not> CheckHaveInputs e (view s2) tx then s2
                    else if \<not> CheckInputs e (view s2) tx then s2
                    else
                      (let s3 = (if IsCoinStake e tx
                                 then s2\<lparr>view := UpdateCoins e tx (view s2) nHeight\<rparr> else s2);
                           s4 = s3\<lparr>sel_vtx := sel_vtx s3 @ [tx],
                                   sel_vTxFees := sel_vTxFees s3 @ [nTxFee tx],
                                   sel_vTxSigOps := sel_vTxSigOps s3 @ [0],
                                   nBlockSize := newSize,
                                   nBlockTx := (nBlockTx s3 + 1) mod 2 ^ 64,
                                   nFees := nFees s3 + nTxFee tx\<rparr>
                       in wake_dependers (GetHash e tx) (mapDependers s4 (GetHash e tx)) s4))))"

text \<open>
  The loop ends: a pass removes one entry, and an orphan enters the vector only when its
  set of pending ancestors becomes empty, which happens once.
\<close>

definition pending_orphans :: "'v SelectorState \<Rightarrow> nat" where
  "pending_orphans s = length (filter (\<lambda>porphan. setDependsOn porphan \<noteq> {}) (vOrphan s))"

definition work_left :: "'v SelectorState \<Rightarrow> nat" where
  "work_left s = length (vecPriority s) + pending_orphans s"

lemma push_heap_at_length [simp]: "length (push_heap_at cmp xs holeIndex topIndex v) = length xs"
proof (induction cmp xs holeIndex topIndex v rule: push_heap_at.induct)
  case (1 cmp xs holeIndex topIndex v)
  show ?case
  proof (cases "topIndex < holeIndex \<and> cmp (xs ! ((holeIndex - 1) div 2)) v")
    case True
    with "1.IH" [OF refl True] show ?thesis
      by (subst push_heap_at.simps) (simp add: Let_def)
  next
    case False
    then show ?thesis
      by (subst push_heap_at.simps) (auto simp: Let_def)
  qed
qed

lemma push_heap_at_set:
  "holeIndex < length xs \<Longrightarrow> set (push_heap_at cmp xs holeIndex topIndex v) \<subseteq> insert v (set xs)"
proof (induction cmp xs holeIndex topIndex v rule: push_heap_at.induct)
  case (1 cmp xs holeIndex topIndex v)
  define parent where "parent = (holeIndex - 1) div 2"
  show ?case
  proof (cases "topIndex < holeIndex \<and> cmp (xs ! parent) v")
    case True
    then have lt: "parent < holeIndex" by (auto simp: parent_def)
    with "1.prems" have pl: "parent < length (xs[holeIndex := xs ! parent])" by simp
    from "1.IH" [OF parent_def True pl]
    have "set (push_heap_at cmp (xs[holeIndex := xs ! parent]) parent topIndex v)
            \<subseteq> insert v (set (xs[holeIndex := xs ! parent]))" .
    moreover have "set (xs[holeIndex := xs ! parent]) \<subseteq> set xs"
      using lt "1.prems" set_update_subset_insert [of xs holeIndex "xs ! parent"] by auto
    moreover have "push_heap_at cmp xs holeIndex topIndex v
                     = push_heap_at cmp (xs[holeIndex := xs ! parent]) parent topIndex v"
      using True by (subst push_heap_at.simps) (simp add: Let_def parent_def)
    ultimately show ?thesis by auto
  next
    case False
    then have "push_heap_at cmp xs holeIndex topIndex v = xs[holeIndex := v]"
      by (subst push_heap_at.simps) (auto simp: Let_def parent_def)
    then show ?thesis using set_update_subset_insert [of xs holeIndex v] by simp
  qed
qed

lemma adjust_heap_loop_step:
  assumes "secondChild < (len - 1) div 2"
  shows "\<exists>child. secondChild < child \<and> child < len \<and>
           adjust_heap_loop cmp xs len holeIndex secondChild
             = adjust_heap_loop cmp (xs[holeIndex := xs ! child]) len child child"
proof (cases "cmp (xs ! (2 * (secondChild + 1))) (xs ! (2 * (secondChild + 1) - 1))")
  case True
  have "adjust_heap_loop cmp xs len holeIndex secondChild
          = adjust_heap_loop cmp (xs[holeIndex := xs ! (2 * (secondChild + 1) - 1)]) len
              (2 * (secondChild + 1) - 1) (2 * (secondChild + 1) - 1)"
    using assms True by (subst adjust_heap_loop.simps) (simp add: Let_def)
  moreover have "secondChild < 2 * (secondChild + 1) - 1 \<and> 2 * (secondChild + 1) - 1 < len"
    using assms by auto
  ultimately show ?thesis by blast
next
  case False
  have "adjust_heap_loop cmp xs len holeIndex secondChild
          = adjust_heap_loop cmp (xs[holeIndex := xs ! (2 * (secondChild + 1))]) len
              (2 * (secondChild + 1)) (2 * (secondChild + 1))"
    using assms False by (subst adjust_heap_loop.simps) (simp add: Let_def)
  moreover have "secondChild < 2 * (secondChild + 1) \<and> 2 * (secondChild + 1) < len"
    using assms by auto
  ultimately show ?thesis by blast
qed

lemma adjust_heap_loop_length:
  "length (fst (adjust_heap_loop cmp xs len holeIndex secondChild)) = length xs"
proof (induction "len - secondChild" arbitrary: xs holeIndex secondChild rule: less_induct)
  case less
  show ?case
  proof (cases "secondChild < (len - 1) div 2")
    case False
    then show ?thesis by (subst adjust_heap_loop.simps) simp
  next
    case True
    from adjust_heap_loop_step [OF True, of cmp xs holeIndex] obtain child where
      c: "secondChild < child" "child < len"
      and eq: "adjust_heap_loop cmp xs len holeIndex secondChild
                 = adjust_heap_loop cmp (xs[holeIndex := xs ! child]) len child child"
      by blast
    have "len - child < len - secondChild" using c by simp
    from less [OF this, of "xs[holeIndex := xs ! child]" child] show ?thesis
      by (simp add: eq)
  qed
qed

lemma adjust_heap_loop_facts:
  "len \<le> length xs \<Longrightarrow> holeIndex < len \<Longrightarrow>
     set (fst (adjust_heap_loop cmp xs len holeIndex secondChild)) \<subseteq> set xs \<and>
     fst (snd (adjust_heap_loop cmp xs len holeIndex secondChild)) < len"
proof (induction "len - secondChild" arbitrary: xs holeIndex secondChild rule: less_induct)
  case less
  show ?case
  proof (cases "secondChild < (len - 1) div 2")
    case False
    with less.prems show ?thesis by (subst adjust_heap_loop.simps, subst adjust_heap_loop.simps) simp
  next
    case True
    from adjust_heap_loop_step [OF True, of cmp xs holeIndex] obtain child where
      c: "secondChild < child" "child < len"
      and eq: "adjust_heap_loop cmp xs len holeIndex secondChild
                 = adjust_heap_loop cmp (xs[holeIndex := xs ! child]) len child child"
      by blast
    have m: "len - child < len - secondChild" using c by simp
    have "xs ! child \<in> set xs" using c less.prems by simp
    then have sub: "set (xs[holeIndex := xs ! child]) \<subseteq> set xs"
      using set_update_subset_insert [of xs holeIndex "xs ! child"] by auto
    from less.hyps [OF m, of "xs[holeIndex := xs ! child]" child] less.prems c
    have "set (fst (adjust_heap_loop cmp (xs[holeIndex := xs ! child]) len child child))
            \<subseteq> set (xs[holeIndex := xs ! child]) \<and>
          fst (snd (adjust_heap_loop cmp (xs[holeIndex := xs ! child]) len child child)) < len"
      by simp
    with sub show ?thesis unfolding eq by auto
  qed
qed

lemma adjust_heap_length [simp]:
  "length (adjust_heap cmp xs holeIndex len v) = length xs"
proof -
  obtain xs1 h1 sc1 where r: "adjust_heap_loop cmp xs len holeIndex holeIndex = (xs1, h1, sc1)"
    by (cases "adjust_heap_loop cmp xs len holeIndex holeIndex") auto
  with adjust_heap_loop_length [of cmp xs len holeIndex holeIndex] have "length xs1 = length xs"
    by simp
  then show ?thesis by (simp add: adjust_heap_def r Let_def)
qed

lemma adjust_heap_set:
  assumes "len \<le> length xs" and "holeIndex < len"
  shows "set (adjust_heap cmp xs holeIndex len v) \<subseteq> insert v (set xs)"
proof -
  obtain xs1 h1 sc1 where r: "adjust_heap_loop cmp xs len holeIndex holeIndex = (xs1, h1, sc1)"
    by (cases "adjust_heap_loop cmp xs len holeIndex holeIndex") auto
  from adjust_heap_loop_facts [OF assms, of cmp holeIndex]
    adjust_heap_loop_length [of cmp xs len holeIndex holeIndex]
  have f: "length xs1 = length xs" "set xs1 \<subseteq> set xs" "h1 < len" by (simp_all add: r)
  show ?thesis
  proof (cases "even len \<and> 2 \<le> len \<and> sc1 = (len - 2) div 2")
    case False
    then have "adjust_heap cmp xs holeIndex len v = push_heap_at cmp xs1 h1 holeIndex v"
      by (auto simp: adjust_heap_def r)
    moreover have "set (push_heap_at cmp xs1 h1 holeIndex v) \<subseteq> insert v (set xs1)"
      using push_heap_at_set [of h1 xs1 cmp holeIndex v] f assms by simp
    ultimately show ?thesis using f by auto
  next
    case True
    then have ch: "2 * (sc1 + 1) - 1 = len - 1" "Suc (len - 2) = len - Suc 0" by auto
    define ys where "ys = xs1[h1 := xs1 ! (len - 1)]"
    have "adjust_heap cmp xs holeIndex len v = push_heap_at cmp ys (len - 1) holeIndex v"
      using True by (simp add: adjust_heap_def r Let_def ch ys_def)
    moreover have "set (push_heap_at cmp ys (len - 1) holeIndex v) \<subseteq> insert v (set ys)"
      using push_heap_at_set [of "len - 1" ys cmp holeIndex v] f assms by (simp add: ys_def)
    moreover have "set ys \<subseteq> set xs1"
      unfolding ys_def
      using f assms set_update_subset_insert [of xs1 h1 "xs1 ! (len - 1)"] by auto
    ultimately show ?thesis using f by auto
  qed
qed

lemma pop_heap_length [simp]: "length (pop_heap cmp xs) = length xs"
  by (simp add: pop_heap_def Let_def)

lemma pop_heap_set: "set (pop_heap cmp xs) \<subseteq> set xs"
proof (cases "1 < length xs")
  case False
  then show ?thesis by (simp add: pop_heap_def)
next
  case True
  define n where "n = length xs - 1"
  have "set (adjust_heap cmp (xs[n := xs ! 0]) 0 n (xs ! n)) \<subseteq> insert (xs ! n) (set (xs[n := xs ! 0]))"
    using True by (intro adjust_heap_set) (simp_all add: n_def)
  moreover have "xs ! 0 \<in> set xs" using True by (cases xs) auto
  then have "set (xs[n := xs ! 0]) \<subseteq> set xs"
    using set_update_subset_insert [of xs n "xs ! 0"] by auto
  moreover have "xs ! n \<in> set xs" using True by (simp add: n_def)
  ultimately show ?thesis using True by (auto simp: pop_heap_def Let_def n_def)
qed

lemma make_heap_loop_facts:
  "parent < len \<Longrightarrow> len \<le> length xs \<Longrightarrow>
     length (make_heap_loop cmp xs len parent) = length xs \<and>
     set (make_heap_loop cmp xs len parent) \<subseteq> set xs"
proof (induction parent arbitrary: xs)
  case 0
  then have "xs ! 0 \<in> set xs" by (cases xs) auto
  with 0 show ?case using adjust_heap_set [of len xs 0 cmp "xs ! 0"] by auto
next
  case (Suc parent)
  define ys where "ys = adjust_heap cmp xs (Suc parent) len (xs ! Suc parent)"
  have "xs ! Suc parent \<in> set xs" using Suc.prems nth_mem [of "Suc parent" xs] by simp
  then have "set ys \<subseteq> set xs"
    using Suc.prems adjust_heap_set [of len xs "Suc parent" cmp "xs ! Suc parent"]
    by (auto simp: ys_def)
  moreover have "length ys = length xs" by (simp add: ys_def)
  moreover from Suc.IH [of ys] Suc.prems
  have "length (make_heap_loop cmp ys len parent) = length ys \<and>
        set (make_heap_loop cmp ys len parent) \<subseteq> set ys"
    by (simp add: ys_def)
  ultimately show ?case by (auto simp: ys_def)
qed

lemma make_heap_length [simp]: "length (make_heap cmp xs) = length xs"
  using make_heap_loop_facts [of "(length xs - 2) div 2" "length xs" xs cmp]
  by (auto simp: make_heap_def)

lemma make_heap_set: "set (make_heap cmp xs) \<subseteq> set xs"
  using make_heap_loop_facts [of "(length xs - 2) div 2" "length xs" xs cmp]
  by (auto simp: make_heap_def)

lemma make_heap_short [simp]: "length xs < 2 \<Longrightarrow> make_heap cmp xs = xs"
  by (simp add: make_heap_def)

lemma pop_heap_short [simp]: "length xs < 2 \<Longrightarrow> pop_heap cmp xs = xs"
  by (simp add: pop_heap_def)

text \<open>The library on six numbers: the heap made of them, a pop and a push.\<close>

lemma make_heap_example: "make_heap (<) [3, 1, 4, 1, 5, 9 :: nat] = [9, 5, 4, 1, 1, 3]"
  by code_simp

lemma pop_heap_example: "pop_heap (<) [9, 5, 4, 1, 1, 3 :: nat] = [5, 3, 4, 1, 1, 9]"
  by code_simp

lemma push_heap_example: "push_heap (<) [9, 5, 4, 1, 1, 3, 6 :: nat] = [9, 5, 6, 1, 1, 3, 4]"
  by code_simp

text \<open>Of two equal entries the second comes to the front.\<close>

lemma make_heap_equal_entries:
  "make_heap (\<lambda>a b. fst a < fst b) [(1 :: nat, False), (1, True)] = [(1, True), (1, False)]"
  by code_simp

lemma push_heap_length [simp]: "length (push_heap cmp xs) = length xs"
  by (simp add: push_heap_def)

lemma push_heap_set: "set (push_heap cmp xs) \<subseteq> set xs"
proof (cases "xs = []")
  case True
  have "length (push_heap cmp xs) = length xs" by (rule push_heap_length)
  with True show ?thesis by (simp del: push_heap_length)
next
  case False
  then have "xs ! (length xs - 1) \<in> set xs" using nth_mem [of "length xs - 1" xs] by simp
  with False push_heap_at_set [of "length xs - 1" xs cmp 0 "xs ! (length xs - 1)"]
  show ?thesis by (auto simp: push_heap_def)
qed

lemma filter_update_count:
  "p < length xs \<Longrightarrow>
     length (filter Q (xs[p := y])) + (if Q (xs ! p) then 1 else 0)
       = length (filter Q xs) + (if Q y then 1 else 0)"
proof (induction xs arbitrary: p)
  case Nil
  then show ?case by simp
next
  case (Cons x xs)
  show ?case
  proof (cases p)
    case 0
    then show ?thesis by simp
  next
    case (Suc q)
    with Cons.prems have "q < length xs" by simp
    from Cons.IH [OF this] Suc show ?thesis by simp
  qed
qed

lemma wake_dependers_work_left: "work_left (wake_dependers h ps s) \<le> work_left s"
proof (induction ps arbitrary: s)
  case Nil
  show ?case by simp
next
  case (Cons p ps)
  show ?case
  proof (cases "p < length (vOrphan s) \<and> setDependsOn (vOrphan s ! p) \<noteq> {}")
    case False
    then have "wake_dependers h (p # ps) s = wake_dependers h ps s" by auto
    with Cons.IH show ?thesis by simp
  next
    case True
    define porphan where
      "porphan = (vOrphan s ! p)\<lparr>setDependsOn := setDependsOn (vOrphan s ! p) - {h}\<rparr>"
    define s1 where "s1 = s\<lparr>vOrphan := (vOrphan s)[p := porphan]\<rparr>"
    define s2 where
      "s2 = s1\<lparr>vecPriority :=
                 push_heap (TxPriorityCompare (fSortedByFee s1))
                   (vecPriority s1 @
                      [(orphan_dPriority porphan, orphan_feeRate porphan, ptx porphan)])\<rparr>"
    have cnt: "pending_orphans s1 + 1
                 = pending_orphans s + (if setDependsOn porphan \<noteq> {} then 1 else 0)"
      using filter_update_count [of p "vOrphan s" "\<lambda>porphan. setDependsOn porphan \<noteq> {}" porphan] True
      by (simp add: pending_orphans_def s1_def)
    show ?thesis
    proof (cases "setDependsOn porphan = {}")
      case empty: True
      have "wake_dependers h (p # ps) s = wake_dependers h ps s2"
        using True empty by (simp add: porphan_def s1_def s2_def Let_def)
      moreover have "work_left s2 = work_left s"
        using cnt empty by (simp add: work_left_def s2_def s1_def pending_orphans_def)
      ultimately show ?thesis using Cons.IH [of s2] by simp
    next
      case False
      have "wake_dependers h (p # ps) s = wake_dependers h ps s1"
        using True False by (simp add: porphan_def s1_def Let_def)
      moreover have "work_left s1 = work_left s"
        using cnt False by (simp add: work_left_def s1_def)
      ultimately show ?thesis using Cons.IH [of s1] by simp
    qed
  qed
qed

lemma select_step_work_left:
  assumes "vecPriority s \<noteq> []"
  shows "work_left (select_step e lims nHeight s) < work_left s"
proof -
  obtain front rest where vec: "vecPriority s = front # rest"
    using assms by (cases "vecPriority s") auto
  define s1 where
    "s1 = s\<lparr>vecPriority := butlast (pop_heap (TxPriorityCompare (fSortedByFee s)) (vecPriority s))\<rparr>"
  have len: "length (vecPriority s1) < length (vecPriority s)"
    using assms by (simp add: s1_def)
  then have s1: "work_left s1 < work_left s"
    by (simp add: work_left_def pending_orphans_def s1_def)
  have flag: "work_left (s1\<lparr>fSortedByFee := True,
                   vecPriority := make_heap (TxPriorityCompare True) (vecPriority s1)\<rparr>) = work_left s1"
    by (simp add: work_left_def pending_orphans_def)
  have adm: "work_left (wake_dependers h ps
               (s3\<lparr>sel_vtx := a, sel_vTxFees := b, sel_vTxSigOps := c, nBlockSize := d,
                   nBlockTx := f, nFees := g\<rparr>)) \<le> work_left s3" for h ps s3 a b c d f g
    using wake_dependers_work_left
      [of h ps "s3\<lparr>sel_vtx := a, sel_vTxFees := b, sel_vTxSigOps := c, nBlockSize := d,
                   nBlockTx := f, nFees := g\<rparr>"]
    by (simp add: work_left_def pending_orphans_def)
  have vw: "work_left (s2\<lparr>view := v\<rparr>) = work_left s2" for s2 :: "'a SelectorState" and v
    by (simp add: work_left_def pending_orphans_def)
  show ?thesis
    unfolding select_step_def vec list.case Let_def
    unfolding vec [symmetric] s1_def [symmetric]
    using s1 flag
    by (auto intro!: le_less_trans [OF adm] simp: vw)
qed

function select_loop ::
  "'v Externals \<Rightarrow> BlockLimits \<Rightarrow> nat \<Rightarrow> 'v SelectorState \<Rightarrow> 'v SelectorState" where
  "select_loop e lims nHeight s =
     (if vecPriority s = [] then s else select_loop e lims nHeight (select_step e lims nHeight s))"
  by pat_completeness auto
termination
  by (relation "measure (\<lambda>(e, lims, nHeight, s). work_left s)")
     (simp_all add: select_step_work_left)

declare select_loop.simps [simp del]

text \<open>
  The state at the head of the loop (lines 325-334): the candidates are made a heap under
  the comparer of the initial order, the size counter starts at 1000, no
  orphan has been registered, and the template vectors are those built so far.
\<close>

definition initial_selection ::
  "BlockLimits \<Rightarrow> 'v \<Rightarrow> TxPriority list \<Rightarrow> CTransaction list \<Rightarrow> CAmount list \<Rightarrow> int list
     \<Rightarrow> 'v SelectorState" where
  "initial_selection lims v vec txs fees sigops =
     \<lparr>vecPriority = make_heap (TxPriorityCompare (nBlockPrioritySize lims = 0)) vec,
      fSortedByFee = (nBlockPrioritySize lims = 0),
      nBlockSize = 1000,
      nBlockTx = 0,
      nFees = 0,
      view = v,
      sel_vtx = txs,
      sel_vTxFees = fees,
      sel_vTxSigOps = sigops,
      vOrphan = [],
      mapDependers = (\<lambda>_. [])\<rparr>"

text \<open>The whole selection of one build (lines 254-413).\<close>

definition select_transactions ::
  "'v Externals \<Rightarrow> 'v \<Rightarrow> nat \<Rightarrow> CTransaction list \<Rightarrow> CTransaction list \<Rightarrow> CAmount list
     \<Rightarrow> int list \<Rightarrow> 'v SelectorState" where
  "select_transactions e v tipHeight mapTx txs fees sigops =
     (let lims = block_limits e;
          vec = fst (collect_candidates e v tipHeight mapTx ([], {}))
      in select_loop e lims (tipHeight + 1) (initial_selection lims v vec txs fees sigops))"

section \<open>CreateNewBlock\<close>

text \<open>
  The outcome of a build: a template, the null return, or a run that does not return
  (a null dereference, an index outside a vector, a failed assertion).
\<close>

datatype 'a build = Built 'a | NoTemplate | Crashed build_error

definition and_then :: "'a build \<Rightarrow> ('a \<Rightarrow> 'b build) \<Rightarrow> 'b build" where
  "and_then r f = (case r of Built x \<Rightarrow> f x | NoTemplate \<Rightarrow> NoTemplate | Crashed err \<Rightarrow> Crashed err)"

definition in_range :: "'a option \<Rightarrow> 'a build" where
  "in_range r = (case r of None \<Rightarrow> Crashed OutOfRange | Some x \<Rightarrow> Built x)"

definition or_null :: "'a option \<Rightarrow> 'a build" where
  "or_null r = (case r of None \<Rightarrow> NoTemplate | Some x \<Rightarrow> Built x)"

text \<open>\<open>xs[i] = f(xs[i])\<close> on a vector; \<open>None\<close> when the index is outside it.\<close>

definition modify_at :: "nat \<Rightarrow> ('a \<Rightarrow> 'a) \<Rightarrow> 'a list \<Rightarrow> 'a list option" where
  "modify_at i f xs = (if i < length xs then Some (xs[i := f (xs ! i)]) else None)"

definition at_index :: "'a list \<Rightarrow> nat \<Rightarrow> 'a option" where
  "at_index xs i = (if i < length xs then Some (xs ! i) else None)"

definition modify_vout :: "nat \<Rightarrow> (CTxOut \<Rightarrow> CTxOut) \<Rightarrow> CTransaction \<Rightarrow> CTransaction option" where
  "modify_vout i f tx = map_option (\<lambda>outs. tx\<lparr>vout := outs\<rparr>) (modify_at i f (vout tx))"

definition modify_vin :: "nat \<Rightarrow> (CTxIn \<Rightarrow> CTxIn) \<Rightarrow> CTransaction \<Rightarrow> CTransaction option" where
  "modify_vin i f tx = map_option (\<lambda>ins. tx\<lparr>vin := ins\<rparr>) (modify_at i f (vin tx))"

text \<open>\<open>pblock->vtx[i] = g(pblock->vtx[i])\<close>, where \<open>g\<close> itself may index outside a vector.\<close>

definition modify_tx :: "nat \<Rightarrow> (CTransaction \<Rightarrow> CTransaction option) \<Rightarrow> CBlock \<Rightarrow> CBlock option" where
  "modify_tx i g b =
     (case at_index (vtx b) i of
        None \<Rightarrow> None
      | Some tx \<Rightarrow> map_option (\<lambda>tx'. b\<lparr>vtx := (vtx b)[i := tx']\<rparr>) (g tx))"

text \<open>
  Modelled from the spec: \<open>CTxOut::SetEmpty\<close>, declared outside miner.cpp, clears the
  output ("clear the coinbase value (set-empty)", "emptying the original reward vout"):
  the value is zeroed and the script cleared.
\<close>

definition SetEmpty :: "CTxOut \<Rightarrow> CTxOut" where
  "SetEmpty out = out\<lparr>nValue := 0, scriptPubKey := []\<rparr>"

text \<open>
  The process-wide variables the builder writes. \<open>nLastCoinStakeSearchTime\<close> is a static
  local of \<open>CreateNewBlock\<close>, \<open>None\<close> until the first call initialises it;
  \<open>extraNonce_hashPrevBlock\<close> is the static local of \<open>IncrementExtraNonce\<close>.
  \<open>coinStakeSearches\<close> lists the calls of the wallet's \<open>CreateCoinStake\<close> with their
  arguments.
\<close>

record MinerGlobals =
  nLastCoinStakeSearchTime :: "int option"
  nLastCoinStakeSearchInterval :: int
  nLastBlockTx :: nat
  nLastBlockSize :: nat
  extraNonce_hashPrevBlock :: uint256
  coinStakeSearches :: "(uint32 \<times> int) list"

text \<open>Line 205: the static is initialised by the first call that reaches it.\<close>

definition init_search_time :: "'v Externals \<Rightarrow> MinerGlobals \<Rightarrow> MinerGlobals" where
  "init_search_time e g =
     (case nLastCoinStakeSearchTime g of
        None \<Rightarrow> g\<lparr>nLastCoinStakeSearchTime := Some (GetAdjustedTime e)\<rparr>
      | Some t \<Rightarrow> g)"

definition last_search_time :: "'v Externals \<Rightarrow> MinerGlobals \<Rightarrow> int" where
  "last_search_time e g =
     (case nLastCoinStakeSearchTime g of None \<Rightarrow> GetAdjustedTime e | Some t \<Rightarrow> t)"

text \<open>
  Lines 207-233, for a proof-of-stake build: the block with the coinstake, or \<open>None\<close>
  when no stake was found. \<open>nSearchTime\<close> is the 32-bit block time read as \<open>int64_t\<close>.
\<close>

definition stake_search ::
  "'v Externals \<Rightarrow> nat \<Rightarrow> CBlock \<Rightarrow> MinerGlobals \<Rightarrow> CBlock option \<times> MinerGlobals" where
  "stake_search e tipHeight pblock g =
     (let t = (word_of_int (GetAdjustedTime e) :: uint32);
          b1 = pblock\<lparr>nTime := t, nBits := GetNextWorkRequired e tipHeight t\<rparr>;
          nSearchTime = uint (nTime b1);
          lastTime = last_search_time e g
      in if lastTime \<le> nSearchTime then
           (let g1 = g\<lparr>coinStakeSearches :=
                        coinStakeSearches g @ [(nBits b1, nSearchTime - lastTime)],
                      nLastCoinStakeSearchInterval := nSearchTime - lastTime,
                      nLastCoinStakeSearchTime := Some nSearchTime\<rparr>
            in case CreateCoinStake e (nBits b1) (nSearchTime - lastTime) of
                 None \<Rightarrow> (None, g1)
               | Some (txCoinStake, nTxNewTime) \<Rightarrow>
                   (map_option (\<lambda>b2. b2\<lparr>nTime := nTxNewTime, vtx := vtx b2 @ [txCoinStake]\<rparr>)
                      (modify_tx 0 (modify_vout 0 SetEmpty) b1), g1))
         else (None, g))"

text \<open>
  Lines 415-427, for a proof-of-work build. The payee outputs are filled on the local
  \<open>txNew\<close>, of which \<open>pblock->vtx[0]\<close> is a copy made at line 200; the result is the
  \<open>payee\<close> member of the header. The \<open>else\<close> branch writes to \<open>txNew\<close> only.
\<close>

definition fill_payee :: "'v Externals \<Rightarrow> CTransaction \<Rightarrow> CAmount \<Rightarrow> nat \<Rightarrow> CBlock \<Rightarrow> CBlock build" where
  "fill_payee e txNew fees tipHeight pblock =
     (let txNew1 = FillBlockPayee e txNew fees False
      in if 1 < length (vout txNew1) then
           Built (pblock\<lparr>payee := scriptPubKey (vout txNew1 ! 1)\<rparr>)
         else
           and_then (in_range (modify_vout 0 (\<lambda>out. out\<lparr>nValue := fees + GetBlockValue e tipHeight\<rparr>) txNew1))
             (\<lambda>txNew2.
                and_then (in_range (modify_vin 0 (\<lambda>txin. txin\<lparr>scriptSig := [ScriptNum (int (tipHeight + 1)), OP_0]\<rparr>) txNew2))
                  (\<lambda>txNew3. Built pblock)))"

text \<open>Lines 432-441: the final coinbase and where the fees go.\<close>

definition final_coinbase :: "bool \<Rightarrow> CAmount \<Rightarrow> nat \<Rightarrow> CBlock \<Rightarrow> CBlock build" where
  "final_coinbase fProofOfStake fees nHeight pblock =
     and_then (in_range (modify_tx 0 (modify_vin 0 (\<lambda>txin. txin\<lparr>scriptSig := [ScriptNum (int nHeight), OP_0]\<rparr>)) pblock))
       (\<lambda>b1.
          and_then (in_range (modify_tx 0 (\<lambda>tx. Some (tx\<lparr>txType := TX_TYPE_REVEAL_AMOUNT\<rparr>)) b1))
            (\<lambda>b2.
               if \<not> fProofOfStake then
                 in_range (modify_tx 0 (modify_vout 0 (\<lambda>out. out\<lparr>nValue := nValue out + fees\<rparr>)) b2)
               else
                 in_range (modify_tx 1 (modify_vout 2 (\<lambda>out. out\<lparr>nValue := nValue out + fees\<rparr>)) b2)))"

text \<open>Lines 443-477: the encoded amount and the commitment.\<close>

definition commit_out :: "'v Externals \<Rightarrow> nat list \<Rightarrow> CTxOut \<Rightarrow> CTxOut option" where
  "commit_out e sharedSec out =
     map_option (\<lambda>cm. out\<lparr>maskValue := EncodeTxOutAmount e (nValue out) sharedSec, commitment := cm\<rparr>)
       (CreateCommitment e (nValue out))"

definition commit_amount :: "'v Externals \<Rightarrow> nat list \<Rightarrow> CBlock \<Rightarrow> CBlock build" where
  "commit_amount e txPubIn pblock =
     (if IsProofOfWork e pblock then
        and_then (in_range (at_index (vtx pblock) 0))
          (\<lambda>tx0. and_then (in_range (at_index (vout tx0) 0))
             (\<lambda>out0. and_then (or_null (commit_out e txPubIn out0))
                (\<lambda>out1. Built (pblock\<lparr>vtx := (vtx pblock)[0 := tx0\<lparr>vout := (vout tx0)[0 := out1]\<rparr>]\<rparr>))))
      else
        and_then (in_range (at_index (vtx pblock) 1))
          (\<lambda>tx1. and_then (in_range (at_index (vout tx1) 1))
             (\<lambda>out1. and_then (in_range (at_index (vout tx1) 2))
                (\<lambda>out2.
                   (let merged = out1\<lparr>nValue := nValue out1 + nValue out2\<rparr>
                    in and_then (or_null (commit_out e (txPub merged) (merged\<lparr>commitment := []\<rparr>)))
                         (\<lambda>out1'.
                            (let tx1' = tx1\<lparr>vout := (vout tx1)[2 := SetEmpty out2, 1 := out1']\<rparr>
                             in and_then (or_null (MakeShnorrSignature e tx1'))
                                  (\<lambda>txSigned.
                                     if VerifyShnorrKeyImageTx e txSigned
                                     then Built (pblock\<lparr>vtx := (vtx pblock)[1 := txSigned]\<rparr>)
                                     else NoTemplate))))))))"

text \<open>Lines 479-487 with \<open>UpdateTime\<close> (lines 94-101).\<close>

definition fill_header :: "'v Externals \<Rightarrow> CBlockIndex list \<Rightarrow> bool \<Rightarrow> CBlock \<Rightarrow> CBlock" where
  "fill_header e c fProofOfStake pblock =
     (let tipHeight = length c - 1;
          b1 = pblock\<lparr>hashPrevBlock := GetBlockHash (last c)\<rparr>;
          b2 = (if \<not> fProofOfStake
                then b1\<lparr>nTime := word_of_int (max (GetMedianTimePast e + 1) (GetAdjustedTime e))\<rparr>
                else b1)
      in b2\<lparr>nBits := GetNextWorkRequired e tipHeight (nTime b2), nNonce := 0,
             nAccumulatorCheckpoint := 0\<rparr>)"

text \<open>
  Lines 489-503 with \<open>IncrementExtraNonce\<close> (lines 609-625), called with a fresh
  \<open>nExtraNonce = 0\<close>, which it increments to one.
\<close>

definition sign_pos_block ::
  "'v Externals \<Rightarrow> nat \<Rightarrow> CBlock \<Rightarrow> MinerGlobals \<Rightarrow> CBlock build \<times> MinerGlobals" where
  "sign_pos_block e nHeight pblock g =
     (let g1 = g\<lparr>extraNonce_hashPrevBlock := hashPrevBlock pblock\<rparr>;
          sig = [ScriptNum (int nHeight), ScriptNum 1, COINBASE_FLAGS]
      in (and_then (in_range (modify_tx 0 (modify_vin 0 (\<lambda>txin. txin\<lparr>scriptSig := sig\<rparr>)) pblock))
            (\<lambda>b1.
               if 100 < ScriptSize e sig then Crashed AssertFailed
               else
                 (let b2 = b1\<lparr>hashMerkleRoot := BlockMerkleRoot e (vtx b1)\<rparr>
                  in case SignBlock e False b2 of
                       Some b3 \<Rightarrow> Built b3
                     | None \<Rightarrow>
                         or_null (SignBlock e
                           (1 < length (vtx b2) \<and> 1 < length (vout (vtx b2 ! 1))) b2))),
          g1))"

text \<open>
  Lines 235-507: the selection and everything after it, from the block \<open>b1\<close> that holds
  the coinbase (and the coinstake of a proof-of-stake build).
\<close>

definition assemble_block ::
  "'v Externals \<Rightarrow> CBlockIndex list \<Rightarrow> CTransaction list \<Rightarrow> 'v \<Rightarrow> CTransaction \<Rightarrow> nat list
     \<Rightarrow> bool \<Rightarrow> CBlock \<Rightarrow> MinerGlobals \<Rightarrow> CBlockTemplate build \<times> MinerGlobals" where
  "assemble_block e c mapTx v txNew txPubIn fProofOfStake b1 g =
     (let tipHeight = length c - 1;
          nHeight = tipHeight + 1;
          sel = select_transactions e v tipHeight mapTx (vtx b1) [-1] [-1];
          b2 = b1\<lparr>vtx := sel_vtx sel\<rparr>;
          fees = nFees sel;
          paid = (if \<not> fProofOfStake then fill_payee e txNew fees tipHeight b2 else Built b2)
      in case paid of
           NoTemplate \<Rightarrow> (NoTemplate, g)
         | Crashed err \<Rightarrow> (Crashed err, g)
         | Built b3 \<Rightarrow>
             (let g1 = g\<lparr>nLastBlockTx := nBlockTx sel, nLastBlockSize := nBlockSize sel\<rparr>;
                  fees1 = (case sel_vTxFees sel of [] \<Rightarrow> [] | f # fs \<Rightarrow> fees # fs);
                  filled =
                    and_then (final_coinbase fProofOfStake fees nHeight b3)
                      (\<lambda>b4. and_then (commit_amount e txPubIn b4)
                         (\<lambda>b5. Built (fill_header e c fProofOfStake b5)))
              in case filled of
                   NoTemplate \<Rightarrow> (NoTemplate, g1)
                 | Crashed err \<Rightarrow> (Crashed err, g1)
                 | Built b6 \<Rightarrow>
                     (case at_index (vtx b6) 0 of
                        None \<Rightarrow> (Crashed OutOfRange, g1)
                      | Some tx0 \<Rightarrow>
                          (let sigops1 = (case sel_vTxSigOps sel of
                                            [] \<Rightarrow> []
                                          | n # ns \<Rightarrow> GetLegacySigOpCount e tx0 # ns)
                           in if fProofOfStake then
                                (case sign_pos_block e nHeight b6 g1 of
                                   (Built b7, g2) \<Rightarrow>
                                     (Built \<lparr>block = b7, vTxFees = fees1, vTxSigOps = sigops1\<rparr>, g2)
                                 | (NoTemplate, g2) \<Rightarrow> (NoTemplate, g2)
                                 | (Crashed err, g2) \<Rightarrow> (Crashed err, g2))
                              else
                                (Built \<lparr>block = b6, vTxFees = fees1, vTxSigOps = sigops1\<rparr>, g1)))))"

text \<open>
  \<open>CreateNewBlock\<close> (lines 160-507) on the active chain \<open>c\<close>, the mempool \<open>mapTx\<close> in
  the order of its map and the coins view \<open>v\<close> of the tip.
\<close>

definition first_coinbase :: "'v Externals \<Rightarrow> nat \<Rightarrow> CScript \<Rightarrow> nat list \<Rightarrow> nat list \<Rightarrow> CTransaction" where
  "first_coinbase e tipHeight scriptPubKeyIn txPubIn txPrivIn =
     (let txNew = new_coinbase scriptPubKeyIn txPubIn txPrivIn
      in txNew\<lparr>vout := map (\<lambda>out. out\<lparr>nValue := GetBlockValue e tipHeight\<rparr>) (vout txNew)\<rparr>)"

definition CreateNewBlock ::
  "'v Externals \<Rightarrow> CBlockIndex list \<Rightarrow> CTransaction list \<Rightarrow> 'v \<Rightarrow> CScript \<Rightarrow> nat list \<Rightarrow> nat list
     \<Rightarrow> bool \<Rightarrow> MinerGlobals \<Rightarrow> CBlockTemplate build \<times> MinerGlobals" where
  "CreateNewBlock e c mapTx v scriptPubKeyIn txPubIn txPrivIn fProofOfStake g =
     (if c = [] then (Crashed (Raised NullPointer), g)
      else
        (let tipHeight = length c - 1;
             txNew = first_coinbase e tipHeight scriptPubKeyIn txPubIn txPrivIn;
             b0 = null_block\<lparr>nVersion := (if MineBlocksOnDemand e then GetArg_blockversion e else 5),
                             vtx := [txNew]\<rparr>;
             g1 = init_search_time e g
         in case (if fProofOfStake then stake_search e tipHeight b0 g1 else (Some b0, g1)) of
              (None, g2) \<Rightarrow> (NoTemplate, g2)
            | (Some b1, g2) \<Rightarrow> assemble_block e c mapTx v txNew txPubIn fProofOfStake b1 g2))"

section \<open>ProcessBlockFound\<close>

text \<open>
  What \<open>ProcessBlockFound\<close> reads and writes: the best-block hash, whether the reserve
  key has been kept, the wallet's request counters, the hashes signalled as found, the
  blocks handed to \<open>ProcessNewBlock\<close> and the inventory pushed to each peer. The log is
  not part of the state.
\<close>

record NodeState =
  g_best_block :: uint256
  keyKept :: bool
  mapRequestCount :: "uint256 \<Rightarrow> int option"
  blockFoundSignals :: "uint256 list"
  processedBlocks :: "CBlock list"
  vNodes :: "uint256 list list"

text \<open>\<open>ProcessBlockFound\<close> (lines 668-701).\<close>

definition ProcessBlockFound :: "'v Externals \<Rightarrow> CBlock \<Rightarrow> NodeState \<Rightarrow> bool \<times> NodeState" where
  "ProcessBlockFound e pblock s =
     (if hashPrevBlock pblock \<noteq> g_best_block s then (False, s)
      else
        (let h = GetBlockHashOf e pblock;
             s1 = s\<lparr>keyKept := True\<rparr>;
             s2 = s1\<lparr>mapRequestCount := (mapRequestCount s1)(h \<mapsto> 0)\<rparr>;
             s3 = s2\<lparr>blockFoundSignals := blockFoundSignals s2 @ [h]\<rparr>;
             s4 = s3\<lparr>processedBlocks := processedBlocks s3 @ [pblock]\<rparr>
         in if \<not> ProcessNewBlock e pblock then (False, s4)
            else (True, s4\<lparr>vNodes := map (\<lambda>inventory. inventory @ [h]) (vNodes s4)\<rparr>)))"

section \<open>Notions used to state the PoA properties\<close>

text \<open>What a failed re-verification does to a summary: the time is zeroed, nothing else.\<close>

definition zero_time_if_failed :: "(uint256 \<Rightarrow> bool) \<Rightarrow> PoSBlockSummary \<Rightarrow> PoSBlockSummary" where
  "zero_time_if_failed rv s = (if rv (pos_hash s) then s else s\<lparr>pos_nTime := 0\<rparr>)"

text \<open>A summary is the record of the active block at its height.\<close>

definition recorded :: "(uint256 \<Rightarrow> bool) \<Rightarrow> CBlockIndex list \<Rightarrow> PoSBlockSummary \<Rightarrow> bool" where
  "recorded rv c s =
     (case chain_at c (pos_height s) of
        None \<Rightarrow> False
      | Some b \<Rightarrow> s = make_summary rv b (pos_height s))"

text \<open>The block at a height is on disk and is proof-of-stake.\<close>

definition is_pos_at :: "CBlockIndex list \<Rightarrow> nat \<Rightarrow> bool" where
  "is_pos_at c h =
     (case chain_at c h of
        None \<Rightarrow> False
      | Some b \<Rightarrow> (case ReadBlockFromDisk b of None \<Rightarrow> False | Some blk \<Rightarrow> IsProofOfStake blk))"

section \<open>Notions used to state the selection properties\<close>

text \<open>
  The states of the selection at the head of the \<open>while\<close> loop, from the state \<open>s0\<close> the
  loop is entered with.
\<close>

inductive visited ::
  "'v Externals \<Rightarrow> BlockLimits \<Rightarrow> nat \<Rightarrow> 'v SelectorState \<Rightarrow> 'v SelectorState \<Rightarrow> bool"
  for e :: "'v Externals" and lims :: BlockLimits and nHeight :: nat and s0 :: "'v SelectorState" where
  entered: "visited e lims nHeight s0 s0"
| pass: "visited e lims nHeight s0 s \<Longrightarrow> vecPriority s \<noteq> [] \<Longrightarrow>
           visited e lims nHeight s0 (select_step e lims nHeight s)"

section \<open>Concrete scenarios\<close>

text \<open>Collaborators that accept everything and compute nothing.\<close>

definition ext0 :: "'v Externals" where
  "ext0 =
     \<lparr>GetAdjustedTime = 1600000000,
      GetNextWorkRequired = (\<lambda>_ _. 0),
      GetMedianTimePast = 1599999000,
      AllowMinDifficultyBlocks = False,
      MineBlocksOnDemand = False,
      GetBlockValue = (\<lambda>_. 0),
      GetLegacySigOpCount = (\<lambda>_. 0),
      BlockMerkleRoot = (\<lambda>_. 0),
      ComputePoAMerkleTree = (\<lambda>_. 0),
      ComputeMinedHash = (\<lambda>_. 0),
      ScriptSize = length,
      POA_BLOCK_VERSION = 100,
      ReVerifyPoSBlock = (\<lambda>_. True),
      EncodeTxOutAmount = (\<lambda>_ _. []),
      CreateCommitment = (\<lambda>_. Some []),
      GetHash = (\<lambda>_. 0),
      IsCoinBase = (\<lambda>_. False),
      IsCoinStake = (\<lambda>_. False),
      IsFinalTx = (\<lambda>_ _. True),
      IsSpentKeyImage = (\<lambda>_. False),
      ContainsOutPoint = (\<lambda>_. False),
      CheckHaveInputs = (\<lambda>_ _. True),
      CheckInputs = (\<lambda>_ _. True),
      UpdateCoins = (\<lambda>_ v _. v),
      GetSerializeSize = (\<lambda>_. 250),
      GetPriority = (\<lambda>_ _. 0),
      ApplyDeltas = (\<lambda>_ p. p),
      FeeRate = (\<lambda>fee sz. if 0 < sz then fee * 1000 div int sz else 0),
      AllowFree = (\<lambda>_. False),
      FillBlockPayee = (\<lambda>tx _ _. tx),
      CreateCoinStake = (\<lambda>_ _. None),
      MakeShnorrSignature = Some,
      VerifyShnorrKeyImageTx = (\<lambda>_. True),
      SignBlock = (\<lambda>_ b. Some b),
      GetArg_blockversion = 5,
      GetArg_blockmaxsize = 750000,
      GetArg_blockprioritysize = 50000,
      GetArg_blockminsize = 0,
      MAX_BLOCK_SIZE_CURRENT = 2000000,
      IsProofOfWork = (\<lambda>_. True),
      ProcessNewBlock = (\<lambda>_. True),
      GetBlockHashOf = (\<lambda>_. 0)\<rparr>"

text \<open>
  The first PoA block: no PoA block on the chain, tip at \<open>START_POA_BLOCK + 100\<close>,
  \<open>LAST_POW_BLOCK = 200\<close>, 59 audited blocks, before the hard fork.
\<close>

definition params_first :: ChainParams where
  "params_first = \<lparr>START_POA_BLOCK = 300, LAST_POW_BLOCK = 200,
                     MAX_NUM_POS_BLOCKS_AUDITED = 59, HardFork = 1000, COIN = 100000000\<rparr>"

definition plain_block :: CBlockIndex where
  "plain_block = \<lparr>GetBlockHash = 7, IsPoABlockByVersion = False, HeaderTime = 5,
                    ReadBlockFromDisk = None\<rparr>"

definition chain_first :: "CBlockIndex list" where
  "chain_first = replicate 401 plain_block"

text \<open>
  A chain with a PoA block at height 5 that audited up to height 3; the blocks around it
  are proof-of-stake, and the one at height 8 fails re-verification.
\<close>

definition params_next :: ChainParams where
  "params_next = \<lparr>START_POA_BLOCK = 2, LAST_POW_BLOCK = 0,
                    MAX_NUM_POS_BLOCKS_AUDITED = 59, HardFork = 1000, COIN = 100000000\<rparr>"

definition pos_block :: "nat \<Rightarrow> CBlockIndex" where
  "pos_block h = \<lparr>GetBlockHash = of_nat h, IsPoABlockByVersion = False,
                    HeaderTime = of_nat (1000 + h),
                    ReadBlockFromDisk = Some \<lparr>IsProofOfStake = True, posBlocksAudited = []\<rparr>\<rparr>"

definition poa_block :: "nat \<Rightarrow> nat \<Rightarrow> CBlockIndex" where
  "poa_block h lastAudited =
     \<lparr>GetBlockHash = of_nat h, IsPoABlockByVersion = True, HeaderTime = of_nat (1000 + h),
      ReadBlockFromDisk =
        Some \<lparr>IsProofOfStake = False,
              posBlocksAudited = [\<lparr>pos_hash = of_nat lastAudited,
                                   pos_nTime = of_nat (1000 + lastAudited),
                                   pos_height = lastAudited\<rparr>]\<rparr>\<rparr>"

definition chain_next :: "CBlockIndex list" where
  "chain_next = [pos_block 0, pos_block 1, pos_block 2, pos_block 3, pos_block 4,
                 poa_block 5 3, pos_block 6, pos_block 7, pos_block 8, pos_block 9]"

definition reverify_next :: "uint256 \<Rightarrow> bool" where
  "reverify_next h = (h \<noteq> 8)"

text \<open>
  A chain of blocks that are not on disk at all, below the first PoA height.
\<close>

definition params_short :: ChainParams where
  "params_short = \<lparr>START_POA_BLOCK = 6, LAST_POW_BLOCK = 1,
                     MAX_NUM_POS_BLOCKS_AUDITED = 3, HardFork = 1000, COIN = 100000000\<rparr>"

definition chain_short :: "CBlockIndex list" where
  "chain_short = replicate 8 plain_block"

text \<open>
  Parameters under which the first audit range ends above the tip of \<open>chain_short\<close>, and
  parameters that put the PoA block of \<open>chain_next\<close> exactly at \<open>START_POA_BLOCK\<close>.
\<close>

definition params_wide :: ChainParams where
  "params_wide = \<lparr>START_POA_BLOCK = 6, LAST_POW_BLOCK = 1,
                    MAX_NUM_POS_BLOCKS_AUDITED = 10, HardFork = 1000, COIN = 100000000\<rparr>"

definition params_boundary :: ChainParams where
  "params_boundary = \<lparr>START_POA_BLOCK = 5, LAST_POW_BLOCK = 0,
                        MAX_NUM_POS_BLOCKS_AUDITED = 5, HardFork = 1000, COIN = 100000000\<rparr>"

text \<open>A block built on hash 41 while the best block is 42, and two connected peers.\<close>

definition stale_block :: CBlock where
  "stale_block = null_block\<lparr>hashPrevBlock := 41\<rparr>"

definition node_at_42 :: NodeState where
  "node_at_42 = \<lparr>g_best_block = 42, keyKept = False, mapRequestCount = Map.empty,
                  blockFoundSignals = [], processedBlocks = [], vNodes = [[], []]\<rparr>"

text \<open>The process-wide variables with a given last coin-stake search time.\<close>

definition globals_at :: "int option \<Rightarrow> MinerGlobals" where
  "globals_at t = \<lparr>nLastCoinStakeSearchTime = t, nLastCoinStakeSearchInterval = 0,
                    nLastBlockTx = 0, nLastBlockSize = 0, extraNonce_hashPrevBlock = 0,
                    coinStakeSearches = []\<rparr>"

text \<open>
  Mempool transactions: \<open>spend kis fee\<close> has one input per key image of \<open>kis\<close>, each
  spending output 0 of the transaction whose hash is the key image's number.
\<close>

definition spend :: "CKeyImage list \<Rightarrow> CAmount \<Rightarrow> CTransaction" where
  "spend kis fee =
     \<lparr>vin = map (\<lambda>k. \<lparr>prevout = \<lparr>out_hash = of_nat k, out_n = 0\<rparr>, keyImage = k, scriptSig = []\<rparr>) kis,
      vout = [], nTxFee = fee, txType = TX_TYPE_FULL\<rparr>"

text \<open>An invalid-outputs set holding one outpoint, and key image 12 spent on chain.\<close>

definition bad_outpoint :: COutPoint where
  "bad_outpoint = \<lparr>out_hash = 11, out_n = 0\<rparr>"

definition ext_blacklist :: "unit Externals" where
  "ext_blacklist = ext0\<lparr>ContainsOutPoint := (\<lambda>outpoint. outpoint = bad_outpoint),
                         IsSpentKeyImage := (\<lambda>k. k = 12)\<rparr>"

text \<open>A node started with \<open>-blockmaxsize=1000\<close>.\<close>

definition ext_tight :: "unit Externals" where
  "ext_tight = ext0\<lparr>GetArg_blockmaxsize := 1000\<rparr>"

text \<open>
  A coins view that is the set of confirmed transaction hashes with unspent outputs;
  the transaction \<open>spend [100] 10000\<close> has the hash 7.
\<close>

definition ext_dependent :: "uint256 set Externals" where
  "ext_dependent =
     ext0\<lparr>GetHash := (\<lambda>tx. if tx = spend [100] 10000 then 7 else 8),
          CheckHaveInputs := (\<lambda>v tx. list_all (\<lambda>txin. out_hash (prevout txin) \<in> v) (vin tx))\<rparr>"

text \<open>
  A payee collaborator that splits the coinbase: 3000 to the miner and 2000 to a second
  output for the payee.
\<close>

definition payee_script :: CScript where
  "payee_script = [PushData [77], OP_CHECKSIG]"

definition miner_script :: CScript where
  "miner_script = [PushData [33], OP_CHECKSIG]"

definition ext_payee :: "unit Externals" where
  "ext_payee =
     ext0\<lparr>GetBlockValue := (\<lambda>_. 5000),
          FillBlockPayee := (\<lambda>tx fees fProofOfStake.
            tx\<lparr>vout := map (\<lambda>out. out\<lparr>nValue := 3000\<rparr>) (vout tx) @
                         [empty_txout\<lparr>nValue := 2000, scriptPubKey := payee_script\<rparr>]\<rparr>)\<rparr>"

section \<open>Properties of the PoA audit enumeration\<close>

lemma dec32: "0 < n \<Longrightarrow> n < 2 ^ 31 \<Longrightarrow> (n + 2 ^ 32 - 1) mod 2 ^ 32 = n - (1::nat)"
  by (simp add: mod_if)

lemma find_prev_poa_none:
  assumes "0 < START_POA_BLOCK P" and "n < length c" and "n < 2 ^ 31"
    and "\<forall>h. START_POA_BLOCK P \<le> h \<and> h \<le> n \<longrightarrow> \<not> IsPoABlockByVersion (c ! h)"
  shows "find_prev_poa P c n = Inr (if START_POA_BLOCK P \<le> n then START_POA_BLOCK P - 1 else n)"
  using assms
proof (induction n)
  case 0
  then show ?case by (subst find_prev_poa.simps) simp
next
  case (Suc n)
  show ?case
  proof (cases "START_POA_BLOCK P \<le> Suc n")
    case False
    then show ?thesis by (subst find_prev_poa.simps) simp
  next
    case True
    have at: "chain_at c (Suc n) = Some (c ! Suc n)"
      using Suc.prems by (simp add: chain_at_def)
    have np: "\<not> IsPoABlockByVersion (c ! Suc n)"
      using Suc.prems True by simp
    have d: "(Suc n + 2 ^ 32 - 1) mod 2 ^ 32 = n"
      using dec32 [of "Suc n"] Suc.prems by simp
    have ih: "find_prev_poa P c n = Inr (if START_POA_BLOCK P \<le> n then START_POA_BLOCK P - 1 else n)"
      using Suc.IH Suc.prems by simp
    have "find_prev_poa P c (Suc n) = find_prev_poa P c n"
      using True at np d by (subst find_prev_poa.simps) simp
    with ih True show ?thesis by (auto simp: le_Suc_eq)
  qed
qed

lemma audit_from_pow_all:
  assumes "LAST_POW_BLOCK P + MAX_NUM_POS_BLOCKS_AUDITED P < length c"
    and "LAST_POW_BLOCK P + MAX_NUM_POS_BLOCKS_AUDITED P < 2 ^ 31"
  shows "audit_from_pow P rv c i audits =
           Inr (audits @ map (\<lambda>h. make_summary rv (c ! h) h)
                  [i ..< LAST_POW_BLOCK P + MAX_NUM_POS_BLOCKS_AUDITED P + 1])"
  using assms
proof (induction P rv c i audits rule: audit_from_pow.induct)
  case (1 P rv c i audits)
  show ?case
  proof (cases "i \<le> LAST_POW_BLOCK P + MAX_NUM_POS_BLOCKS_AUDITED P")
    case False
    then show ?thesis by (subst audit_from_pow.simps) simp
  next
    case True
    have at: "chain_at c i = Some (c ! i)"
      using True "1.prems" by (simp add: chain_at_def)
    have up: "[i ..< LAST_POW_BLOCK P + MAX_NUM_POS_BLOCKS_AUDITED P + 1]
                = i # [i + 1 ..< LAST_POW_BLOCK P + MAX_NUM_POS_BLOCKS_AUDITED P + 1]"
      using True by (simp add: upt_conv_Cons)
    have "audit_from_pow P rv c i audits
            = audit_from_pow P rv c (i + 1) (audits @ [make_summary rv (c ! i) i])"
      using True at by (subst audit_from_pow.simps) simp
    also have "\<dots> = Inr ((audits @ [make_summary rv (c ! i) i]) @
                     map (\<lambda>h. make_summary rv (c ! h) h)
                       [i + 1 ..< LAST_POW_BLOCK P + MAX_NUM_POS_BLOCKS_AUDITED P + 1])"
      by (rule "1.IH" [OF True at "1.prems"])
    finally show ?thesis
      by (simp only: up list.map append_assoc append_Cons append_Nil)
  qed
qed

lemma GetListOfPoSInfo_first:
  assumes start: "0 < START_POA_BLOCK P"
    and tip: "n < length c" "length c \<le> 2 ^ 31"
    and nopoa: "\<forall>h. START_POA_BLOCK P \<le> h \<and> h \<le> n \<longrightarrow> \<not> IsPoABlockByVersion (c ! h)"
    and cover: "LAST_POW_BLOCK P + MAX_NUM_POS_BLOCKS_AUDITED P < length c"
  shows "GetListOfPoSInfo P rv c n audits =
           Inr (if START_POA_BLOCK P \<le> n then START_POA_BLOCK P - 1 else n,
                audits @ map (\<lambda>h. make_summary rv (c ! h) h)
                  [LAST_POW_BLOCK P + 1 ..< LAST_POW_BLOCK P + MAX_NUM_POS_BLOCKS_AUDITED P + 1])"
proof -
  have n31: "n < 2 ^ 31" using tip by simp
  have scan: "find_prev_poa P c n = Inr (if START_POA_BLOCK P \<le> n then START_POA_BLOCK P - 1 else n)"
    by (rule find_prev_poa_none [OF start tip(1) n31 nopoa])
  have c31: "LAST_POW_BLOCK P + MAX_NUM_POS_BLOCKS_AUDITED P < 2 ^ 31"
    using cover tip by simp
  show ?thesis
    unfolding GetListOfPoSInfo_def scan
    by (simp add: audit_from_pow_all [OF cover c31])
qed

lemma map_height_summary: "map (pos_height \<circ> (\<lambda>h. make_summary rv (c ! h) h)) hs = hs"
  by (induction hs) (simp_all add: make_summary_def)

lemma mark_make_summary:
  "zero_time_if_failed rv (make_summary (\<lambda>_. True) b h) = make_summary rv b h"
  by (simp add: zero_time_if_failed_def make_summary_def)

lemma audit_from_pow_mark:
  "audit_from_pow P rv c i (map (zero_time_if_failed rv) A) =
     map_sum id (map (zero_time_if_failed rv)) (audit_from_pow P (\<lambda>_. True) c i A)"
proof (induction P "\<lambda>_::uint256. True" c i A rule: audit_from_pow.induct)
  case (1 P c i A)
  show ?case
  proof (cases "i \<le> LAST_POW_BLOCK P + MAX_NUM_POS_BLOCKS_AUDITED P")
    case False
    then show ?thesis
      by (subst audit_from_pow.simps, subst (2) audit_from_pow.simps) simp
  next
    case True
    show ?thesis
    proof (cases "chain_at c i")
      case None
      with True show ?thesis
        by (subst audit_from_pow.simps, subst (2) audit_from_pow.simps) simp
    next
      case (Some b)
      have "audit_from_pow P rv c i (map (zero_time_if_failed rv) A)
              = audit_from_pow P rv c (i + 1)
                  (map (zero_time_if_failed rv) (A @ [make_summary (\<lambda>_. True) b i]))"
        using True Some by (subst audit_from_pow.simps) (simp add: mark_make_summary)
      also have "\<dots> = map_sum id (map (zero_time_if_failed rv))
                        (audit_from_pow P (\<lambda>_. True) c (i + 1) (A @ [make_summary (\<lambda>_. True) b i]))"
        by (rule "1.hyps" [OF True Some])
      also have "audit_from_pow P (\<lambda>_. True) c (i + 1) (A @ [make_summary (\<lambda>_. True) b i])
                   = audit_from_pow P (\<lambda>_. True) c i A"
        using True Some by (subst (2) audit_from_pow.simps) simp
      finally show ?thesis .
    qed
  qed
qed

lemma audit_after_poa_mark:
  "audit_after_poa P rv c cur nxt (map (zero_time_if_failed rv) A) =
     map_sum id (map (zero_time_if_failed rv)) (audit_after_poa P (\<lambda>_. True) c cur nxt A)"
proof (induction P "\<lambda>_::uint256. True" c cur nxt A rule: audit_after_poa.induct)
  case (1 P c cur nxt A)
  show ?case
  proof (cases "nxt \<le> cur")
    case False
    then show ?thesis
      by (subst audit_after_poa.simps, subst (2) audit_after_poa.simps) simp
  next
    case le: True
    show ?thesis
    proof (cases "chain_at c nxt")
      case None
      with le show ?thesis
        by (subst audit_after_poa.simps, subst (2) audit_after_poa.simps) simp
    next
      case (Some b)
      show ?thesis
      proof (cases "ReadBlockFromDisk b")
        case None
        with le Some show ?thesis
          by (subst audit_after_poa.simps, subst (2) audit_after_poa.simps) simp
      next
        case rd: (Some blk)
        define A' where "A' = (if IsProofOfStake blk then A @ [make_summary (\<lambda>_. True) b nxt] else A)"
        have A'm: "(if IsProofOfStake blk
                    then map (zero_time_if_failed rv) A @ [make_summary rv b nxt]
                    else map (zero_time_if_failed rv) A) = map (zero_time_if_failed rv) A'"
          by (simp add: A'_def mark_make_summary)
        have L: "audit_after_poa P rv c cur nxt (map (zero_time_if_failed rv) A)
                 = (if length A' = MAX_NUM_POS_BLOCKS_AUDITED P
                    then Inr (map (zero_time_if_failed rv) A')
                    else audit_after_poa P rv c cur ((nxt + 1) mod 2 ^ 32)
                           (map (zero_time_if_failed rv) A'))"
          using le Some rd
          by (subst audit_after_poa.simps) (simp add: A'm Let_def del: map_append)
        have R: "audit_after_poa P (\<lambda>_. True) c cur nxt A
                 = (if length A' = MAX_NUM_POS_BLOCKS_AUDITED P then Inr A'
                    else audit_after_poa P (\<lambda>_. True) c cur ((nxt + 1) mod 2 ^ 32) A')"
          using le Some rd
          by (subst audit_after_poa.simps) (simp add: A'_def Let_def)
        show ?thesis
        proof (cases "length A' = MAX_NUM_POS_BLOCKS_AUDITED P")
          case True
          then show ?thesis by (simp add: L R)
        next
          case False
          have "audit_after_poa P rv c cur ((nxt + 1) mod 2 ^ 32) (map (zero_time_if_failed rv) A')
                 = map_sum id (map (zero_time_if_failed rv))
                     (audit_after_poa P (\<lambda>_. True) c cur ((nxt + 1) mod 2 ^ 32) A')"
            using False by (intro "1.hyps" [OF le Some rd]) (simp_all add: A'_def)
          with False show ?thesis by (simp add: L R)
        qed
      qed
    qed
  qed
qed

lemma GetListOfPoSInfo_mark:
  "GetListOfPoSInfo P rv c h (map (zero_time_if_failed rv) A) =
     map_sum id (map_prod id (map (zero_time_if_failed rv))) (GetListOfPoSInfo P (\<lambda>_. True) c h A)"
  unfolding GetListOfPoSInfo_def
  by (simp add: audit_from_pow_mark audit_after_poa_mark Let_def
           split: sum.splits option.splits)

lemma recorded_make: "chain_at c h = Some b \<Longrightarrow> recorded rv c (make_summary rv b h)"
  by (simp add: recorded_def make_summary_def)

lemma audit_from_pow_sound:
  "audit_from_pow P rv c i A = Inr A' \<Longrightarrow>
     \<exists>new. A' = A @ new \<and> (\<forall>s\<in>set new. recorded rv c s)"
proof (induction P rv c i A rule: audit_from_pow.induct)
  case (1 P rv c i A)
  show ?case
  proof (cases "i \<le> LAST_POW_BLOCK P + MAX_NUM_POS_BLOCKS_AUDITED P")
    case False
    with "1.prems" have "A' = A" by (subst (asm) audit_from_pow.simps) simp
    then show ?thesis by simp
  next
    case True
    show ?thesis
    proof (cases "chain_at c i")
      case None
      with True "1.prems" show ?thesis by (subst (asm) audit_from_pow.simps) simp
    next
      case (Some b)
      with True "1.prems" have "audit_from_pow P rv c (i + 1) (A @ [make_summary rv b i]) = Inr A'"
        by (subst (asm) audit_from_pow.simps) simp
      from "1.IH" [OF True Some this] obtain new
        where n: "A' = (A @ [make_summary rv b i]) @ new" "\<forall>s\<in>set new. recorded rv c s"
        by blast
      have "A' = A @ (make_summary rv b i # new)" using n(1) by simp
      moreover have "\<forall>s\<in>set (make_summary rv b i # new). recorded rv c s"
        using n(2) recorded_make [OF Some] by simp
      ultimately show ?thesis by blast
    qed
  qed
qed

lemma audit_after_poa_sound:
  "audit_after_poa P rv c cur nxt A = Inr A' \<Longrightarrow>
     \<exists>new. A' = A @ new \<and> (\<forall>s\<in>set new. recorded rv c s \<and> is_pos_at c (pos_height s))"
proof (induction P rv c cur nxt A rule: audit_after_poa.induct)
  case (1 P rv c cur nxt A)
  show ?case
  proof (cases "nxt \<le> cur")
    case False
    with "1.prems" have "A' = A" by (subst (asm) audit_after_poa.simps) simp
    then show ?thesis by simp
  next
    case le: True
    show ?thesis
    proof (cases "chain_at c nxt")
      case None
      with le "1.prems" show ?thesis by (subst (asm) audit_after_poa.simps) simp
    next
      case (Some b)
      show ?thesis
      proof (cases "ReadBlockFromDisk b")
        case None
        with le Some "1.prems" show ?thesis by (subst (asm) audit_after_poa.simps) simp
      next
        case rd: (Some blk)
        define step where "step = (if IsProofOfStake blk then [make_summary rv b nxt] else [])"
        define A1 where "A1 = (if IsProofOfStake blk then A @ [make_summary rv b nxt] else A)"
        have A1: "A1 = A @ step" by (simp add: A1_def step_def)
        have st: "\<forall>s\<in>set step. recorded rv c s \<and> is_pos_at c (pos_height s)"
          using recorded_make [OF Some, of rv] Some rd
          by (auto simp: step_def is_pos_at_def make_summary_def)
        have "audit_after_poa P rv c cur nxt A
                = (if length A1 = MAX_NUM_POS_BLOCKS_AUDITED P then Inr A1
                   else audit_after_poa P rv c cur ((nxt + 1) mod 2 ^ 32) A1)"
          using le Some rd
          by (subst audit_after_poa.simps) (simp add: A1_def Let_def)
        with "1.prems"
        have E: "(if length A1 = MAX_NUM_POS_BLOCKS_AUDITED P then Inr A1
                  else audit_after_poa P rv c cur ((nxt + 1) mod 2 ^ 32) A1) = Inr A'"
          by simp
        show ?thesis
        proof (cases "length A1 = MAX_NUM_POS_BLOCKS_AUDITED P")
          case True
          with E have "A' = A @ step" by (simp add: A1)
          with st show ?thesis by blast
        next
          case False
          with E have "audit_after_poa P rv c cur ((nxt + 1) mod 2 ^ 32) A1 = Inr A'" by simp
          from "1.IH" [OF le Some rd A1_def False this] obtain new
            where n: "A' = A1 @ new" "\<forall>s\<in>set new. recorded rv c s \<and> is_pos_at c (pos_height s)"
            by blast
          have "A' = A @ (step @ new)" using n(1) A1 by simp
          moreover have "\<forall>s\<in>set (step @ new). recorded rv c s \<and> is_pos_at c (pos_height s)"
            using n(2) st by auto
          ultimately show ?thesis by blast
        qed
      qed
    qed
  qed
qed

lemma GetListOfPoSInfo_sound:
  assumes "GetListOfPoSInfo P rv c h A = Inr (n, A')"
  shows "\<exists>new. A' = A @ new \<and> (\<forall>s\<in>set new. recorded rv c s)"
  using assms audit_from_pow_sound [of P rv c "LAST_POW_BLOCK P + 1" A A']
    audit_after_poa_sound [of P rv c h _ A A']
  unfolding GetListOfPoSInfo_def
  by (fastforce simp: Let_def split: sum.splits if_splits option.splits)

lemma GetListOfPoSInfo_after_poa_sound:
  assumes "find_prev_poa P c h = Inr n" and "START_POA_BLOCK P < n"
    and "GetListOfPoSInfo P rv c h A = Inr (n', A')"
  shows "n' = n \<and> (\<exists>new. A' = A @ new \<and> (\<forall>s\<in>set new. is_pos_at c (pos_height s)))"
  using assms audit_after_poa_sound [of P rv c h _ A A']
  unfolding GetListOfPoSInfo_def
  by (fastforce simp: Let_def split: sum.splits if_splits option.splits)

lemma GetListOfPoSInfo_first_branch:
  assumes scan: "find_prev_poa P c h = Inr n" and le: "n \<le> START_POA_BLOCK P"
    and cover: "LAST_POW_BLOCK P + MAX_NUM_POS_BLOCKS_AUDITED P < length c"
    and len: "length c \<le> 2 ^ 31"
  shows "GetListOfPoSInfo P rv c h A =
           Inr (n, A @ map (\<lambda>k. make_summary rv (c ! k) k)
                  [LAST_POW_BLOCK P + 1 ..< LAST_POW_BLOCK P + MAX_NUM_POS_BLOCKS_AUDITED P + 1])"
proof -
  have c31: "LAST_POW_BLOCK P + MAX_NUM_POS_BLOCKS_AUDITED P < 2 ^ 31"
    using cover len by simp
  show ?thesis
    unfolding GetListOfPoSInfo_def scan using le
    by (simp add: audit_from_pow_all [OF cover c31])
qed

lemma chain_at_SomeD: "chain_at c h = Some b \<Longrightarrow> h < 2 ^ 31 \<and> h < length c \<and> b = c ! h"
  by (auto simp: chain_at_def split: if_splits)

lemma audit_from_pow_exact:
  "audit_from_pow P rv c i A = Inr A' \<Longrightarrow>
     A' = A @ map (\<lambda>h. make_summary rv (c ! h) h)
                [i ..< LAST_POW_BLOCK P + MAX_NUM_POS_BLOCKS_AUDITED P + 1]"
proof (induction P rv c i A rule: audit_from_pow.induct)
  case (1 P rv c i A)
  show ?case
  proof (cases "i \<le> LAST_POW_BLOCK P + MAX_NUM_POS_BLOCKS_AUDITED P")
    case False
    with "1.prems" have "A' = A" by (subst (asm) audit_from_pow.simps) simp
    with False show ?thesis by simp
  next
    case True
    show ?thesis
    proof (cases "chain_at c i")
      case None
      with True "1.prems" show ?thesis by (subst (asm) audit_from_pow.simps) simp
    next
      case (Some b)
      then have b: "b = c ! i" using chain_at_SomeD [of c i b] by simp
      from True Some "1.prems"
      have "audit_from_pow P rv c (i + 1) (A @ [make_summary rv b i]) = Inr A'"
        by (subst (asm) audit_from_pow.simps) simp
      from "1.IH" [OF True Some this]
      have "A' = (A @ [make_summary rv b i]) @ map (\<lambda>h. make_summary rv (c ! h) h)
                   [i + 1 ..< LAST_POW_BLOCK P + MAX_NUM_POS_BLOCKS_AUDITED P + 1]" .
      moreover have "[i ..< LAST_POW_BLOCK P + MAX_NUM_POS_BLOCKS_AUDITED P + 1]
                = i # [i + 1 ..< LAST_POW_BLOCK P + MAX_NUM_POS_BLOCKS_AUDITED P + 1]"
        using True by (simp add: upt_conv_Cons)
      ultimately show ?thesis
        by (simp only: b list.map append_assoc append_Cons append_Nil)
    qed
  qed
qed

lemma is_pos_at_read:
  "chain_at c h = Some b \<Longrightarrow> ReadBlockFromDisk b = Some blk \<Longrightarrow> is_pos_at c h = IsProofOfStake blk"
  by (simp add: is_pos_at_def)

lemma audit_after_poa_exact:
  "audit_after_poa P rv c cur nxt A = Inr A' \<Longrightarrow> length A < MAX_NUM_POS_BLOCKS_AUDITED P \<Longrightarrow>
     A' = A @ map (\<lambda>h. make_summary rv (c ! h) h)
                (take (MAX_NUM_POS_BLOCKS_AUDITED P - length A)
                   (filter (is_pos_at c) [nxt ..< cur + 1]))"
proof (induction P rv c cur nxt A rule: audit_after_poa.induct)
  case (1 P rv c cur nxt A)
  show ?case
  proof (cases "nxt \<le> cur")
    case False
    with "1.prems" have "A' = A" by (subst (asm) audit_after_poa.simps) simp
    with False show ?thesis by simp
  next
    case le: True
    show ?thesis
    proof (cases "chain_at c nxt")
      case None
      with le "1.prems" show ?thesis by (subst (asm) audit_after_poa.simps) simp
    next
      case (Some b)
      then have b: "b = c ! nxt" and n31: "nxt < 2 ^ 31"
        using chain_at_SomeD [of c nxt b] by simp_all
      have inc: "(nxt + 1) mod 2 ^ 32 = nxt + 1" using n31 by simp
      have up: "[nxt ..< cur + 1] = nxt # [nxt + 1 ..< cur + 1]"
        using le by (simp add: upt_conv_Cons)
      show ?thesis
      proof (cases "ReadBlockFromDisk b")
        case None
        with le Some "1.prems" show ?thesis by (subst (asm) audit_after_poa.simps) simp
      next
        case rd: (Some blk)
        have pos: "is_pos_at c nxt = IsProofOfStake blk" by (rule is_pos_at_read [OF Some rd])
        define A1 where "A1 = (if IsProofOfStake blk then A @ [make_summary rv b nxt] else A)"
        have "audit_after_poa P rv c cur nxt A
                = (if length A1 = MAX_NUM_POS_BLOCKS_AUDITED P then Inr A1
                   else audit_after_poa P rv c cur ((nxt + 1) mod 2 ^ 32) A1)"
          using le Some rd
          by (subst audit_after_poa.simps) (simp add: A1_def Let_def)
        with "1.prems"(1)
        have E: "(if length A1 = MAX_NUM_POS_BLOCKS_AUDITED P then Inr A1
                  else audit_after_poa P rv c cur ((nxt + 1) mod 2 ^ 32) A1) = Inr A'"
          by simp
        show ?thesis
        proof (cases "length A1 = MAX_NUM_POS_BLOCKS_AUDITED P")
          case True
          with E have A': "A' = A1" by simp
          from True "1.prems"(2) have ps: "IsProofOfStake blk"
            by (auto simp: A1_def split: if_splits)
          with True have k: "MAX_NUM_POS_BLOCKS_AUDITED P - length A = 1"
            by (simp add: A1_def)
          show ?thesis
            unfolding A' up k using ps pos by (simp add: A1_def b)
        next
          case False
          with E have run: "audit_after_poa P rv c cur ((nxt + 1) mod 2 ^ 32) A1 = Inr A'" by simp
          have lt: "length A1 < MAX_NUM_POS_BLOCKS_AUDITED P"
            using False "1.prems"(2) by (auto simp: A1_def split: if_splits)
          from "1.IH" [OF le Some rd A1_def False run lt]
          have ih: "A' = A1 @ map (\<lambda>h. make_summary rv (c ! h) h)
                      (take (MAX_NUM_POS_BLOCKS_AUDITED P - length A1)
                         (filter (is_pos_at c) [nxt + 1 ..< cur + 1]))"
            by (simp only: inc)
          show ?thesis
          proof (cases "IsProofOfStake blk")
            case True
            with lt have "MAX_NUM_POS_BLOCKS_AUDITED P - length A
                            = Suc (MAX_NUM_POS_BLOCKS_AUDITED P - length A1)"
              by (simp add: A1_def)
            then show ?thesis
              unfolding ih up using True pos by (simp add: A1_def b)
          next
            case False
            then show ?thesis
              unfolding ih up using pos by (simp add: A1_def)
          qed
        qed
      qed
    qed
  qed
qed

lemma audit_after_poa_returns:
  assumes "cur < length c" and "length c \<le> 2 ^ 31"
    and "\<forall>k. nxt \<le> k \<and> k \<le> cur \<longrightarrow> ReadBlockFromDisk (c ! k) \<noteq> None"
  shows "\<exists>A'. audit_after_poa P rv c cur nxt A = Inr A'"
  using assms
proof (induction P rv c cur nxt A rule: audit_after_poa.induct)
  case (1 P rv c cur nxt A)
  show ?case
  proof (cases "nxt \<le> cur")
    case False
    then show ?thesis by (subst audit_after_poa.simps) simp
  next
    case le: True
    have at: "chain_at c nxt = Some (c ! nxt)"
      using le "1.prems" by (simp add: chain_at_def)
    obtain blk where rd: "ReadBlockFromDisk (c ! nxt) = Some blk"
      using le "1.prems"(3) by auto
    have inc: "(nxt + 1) mod 2 ^ 32 = nxt + 1"
      using le "1.prems"(1,2) by simp
    define A1 where "A1 = (if IsProofOfStake blk then A @ [make_summary rv (c ! nxt) nxt] else A)"
    have eq: "audit_after_poa P rv c cur nxt A
                = (if length A1 = MAX_NUM_POS_BLOCKS_AUDITED P then Inr A1
                   else audit_after_poa P rv c cur ((nxt + 1) mod 2 ^ 32) A1)"
      using le at rd
      by (subst audit_after_poa.simps) (simp add: A1_def Let_def)
    show ?thesis
    proof (cases "length A1 = MAX_NUM_POS_BLOCKS_AUDITED P")
      case True
      with eq show ?thesis by simp
    next
      case False
      have "\<forall>k. (nxt + 1) mod 2 ^ 32 \<le> k \<and> k \<le> cur \<longrightarrow> ReadBlockFromDisk (c ! k) \<noteq> None"
        using "1.prems"(3) inc by auto
      from "1.IH" [OF le at rd A1_def False "1.prems"(1,2) this] False eq
      show ?thesis by simp
    qed
  qed
qed

lemma find_prev_poa_found:
  "find_prev_poa P c h = Inr n \<Longrightarrow>
     n \<le> h \<and> (START_POA_BLOCK P \<le> n \<longrightarrow> (\<exists>b. chain_at c n = Some b \<and> IsPoABlockByVersion b))"
proof (induction P c h rule: find_prev_poa.induct)
  case (1 P c h)
  show ?case
  proof (cases "START_POA_BLOCK P \<le> h")
    case False
    with "1.prems" have "n = h" by (subst (asm) find_prev_poa.simps) simp
    with False show ?thesis by simp
  next
    case ge: True
    show ?thesis
    proof (cases "chain_at c h")
      case None
      with ge "1.prems" show ?thesis by (subst (asm) find_prev_poa.simps) simp
    next
      case (Some b)
      show ?thesis
      proof (cases "IsPoABlockByVersion b")
        case True
        with ge Some "1.prems" have "n = h" by (subst (asm) find_prev_poa.simps) simp
        with Some True show ?thesis by simp
      next
        case False
        with ge Some "1.prems"
        have run: "find_prev_poa P c ((h + 2 ^ 32 - 1) mod 2 ^ 32) = Inr n"
          by (subst (asm) find_prev_poa.simps) simp
        have h31: "h < 2 ^ 31" using chain_at_SomeD [OF Some] by simp
        show ?thesis
        proof (cases "h = 0")
          case True
          then have "(h + 2 ^ 32 - 1) mod 2 ^ 32 = (2 ^ 32 - 1 :: nat)" by simp
          with run have "find_prev_poa P c (2 ^ 32 - 1) = Inr n" by simp
          moreover have "chain_at c (2 ^ 32 - 1) = None" by (simp add: chain_at_def)
          moreover have "START_POA_BLOCK P \<le> 2 ^ 32 - 1" using ge True by simp
          ultimately show ?thesis by (subst (asm) find_prev_poa.simps) simp
        next
          case nz: False
          then have d: "(h + 2 ^ 32 - 1) mod 2 ^ 32 = h - 1"
            using dec32 [of h] h31 by simp
          from "1.IH" [OF ge Some False run] d show ?thesis by auto
        qed
      qed
    qed
  qed
qed

lemma GetListOfPoSInfo_exact:
  assumes run: "GetListOfPoSInfo P rv c h [] = Inr (n, audits)"
  shows "find_prev_poa P c h = Inr n \<and>
         (n \<le> START_POA_BLOCK P \<longrightarrow>
            audits = map (\<lambda>k. make_summary rv (c ! k) k)
                       [LAST_POW_BLOCK P + 1 ..< LAST_POW_BLOCK P + MAX_NUM_POS_BLOCKS_AUDITED P + 1]) \<and>
         (START_POA_BLOCK P < n \<and> 0 < MAX_NUM_POS_BLOCKS_AUDITED P \<longrightarrow>
            (\<exists>pb blk. chain_at c n = Some pb \<and> ReadBlockFromDisk pb = Some blk \<and>
               posBlocksAudited blk \<noteq> [] \<and>
               audits = map (\<lambda>k. make_summary rv (c ! k) k)
                          (take (MAX_NUM_POS_BLOCKS_AUDITED P)
                             (filter (is_pos_at c)
                                [(pos_height (last (posBlocksAudited blk)) + 1) mod 2 ^ 32 ..< h + 1]))))"
proof -
  from run obtain m where scan: "find_prev_poa P c h = Inr m"
    unfolding GetListOfPoSInfo_def by (cases "find_prev_poa P c h") auto
  show ?thesis
  proof (cases "m \<le> START_POA_BLOCK P")
    case True
    from run scan True obtain A' where
      a: "audit_from_pow P rv c (LAST_POW_BLOCK P + 1) [] = Inr A'" and mn: "n = m" "audits = A'"
      unfolding GetListOfPoSInfo_def by (auto split: sum.splits)
    from audit_from_pow_exact [OF a] mn scan True show ?thesis by simp
  next
    case False
    then have gt: "START_POA_BLOCK P < m" by simp
    from run scan False obtain pb blk A' where
      pb: "chain_at c m = Some pb" and rd: "ReadBlockFromDisk pb = Some blk"
      and ne: "posBlocksAudited blk \<noteq> []"
      and a: "audit_after_poa P rv c h ((pos_height (last (posBlocksAudited blk)) + 1) mod 2 ^ 32) []
                = Inr A'"
      and mn: "n = m" "audits = A'"
      unfolding GetListOfPoSInfo_def Let_def
      by (auto split: sum.splits option.splits if_splits)
    have "audits = map (\<lambda>k. make_summary rv (c ! k) k)
                     (take (MAX_NUM_POS_BLOCKS_AUDITED P)
                        (filter (is_pos_at c)
                           [(pos_height (last (posBlocksAudited blk)) + 1) mod 2 ^ 32 ..< h + 1]))"
      if "0 < MAX_NUM_POS_BLOCKS_AUDITED P"
      using audit_after_poa_exact [OF a] that mn by simp
    with pb rd ne mn scan gt show ?thesis by auto
  qed
qed

lemma GetListOfPoSInfo_returns_after_poa:
  assumes scan: "find_prev_poa P c h = Inr n" and gt: "START_POA_BLOCK P < n"
    and tip: "h < length c" "length c \<le> 2 ^ 31"
    and rd: "\<forall>k\<le>h. \<exists>blk. ReadBlockFromDisk (c ! k) = Some blk \<and>
                (IsPoABlockByVersion (c ! k) \<longrightarrow> posBlocksAudited blk \<noteq> [])"
  shows "\<exists>audits. GetListOfPoSInfo P rv c h A = Inr (n, audits)"
proof -
  from find_prev_poa_found [OF scan] gt obtain pb where
    nh: "n \<le> h" and pb: "chain_at c n = Some pb" and poa: "IsPoABlockByVersion pb"
    by auto
  have pbn: "pb = c ! n" using chain_at_SomeD [OF pb] by simp
  from rd nh poa pbn obtain blk where
    b: "ReadBlockFromDisk pb = Some blk" "posBlocksAudited blk \<noteq> []"
    by auto
  have "\<forall>k. (pos_height (last (posBlocksAudited blk)) + 1) mod 2 ^ 32 \<le> k \<and> k \<le> h
          \<longrightarrow> ReadBlockFromDisk (c ! k) \<noteq> None"
    using rd by auto
  from audit_after_poa_returns [OF tip this, of P rv A] obtain A' where
    "audit_after_poa P rv c h ((pos_height (last (posBlocksAudited blk)) + 1) mod 2 ^ 32) A = Inr A'"
    by blast
  then show ?thesis
    unfolding GetListOfPoSInfo_def scan using gt pb b by (simp add: Let_def)
qed

lemma GetListOfPoSInfo_first_exact:
  assumes scan: "find_prev_poa P c h = Inr n" and le: "n \<le> START_POA_BLOCK P"
    and run: "GetListOfPoSInfo P rv c h A = Inr (n', A')"
  shows "n' = n \<and> A' = A @ map (\<lambda>k. make_summary rv (c ! k) k)
           [LAST_POW_BLOCK P + 1 ..< LAST_POW_BLOCK P + MAX_NUM_POS_BLOCKS_AUDITED P + 1]"
proof -
  from run scan le obtain B where B: "audit_from_pow P rv c (LAST_POW_BLOCK P + 1) A = Inr B"
    and r: "n' = n" "A' = B"
    by (auto simp: GetListOfPoSInfo_def split: sum.splits)
  from audit_from_pow_exact [OF B] r show ?thesis by simp
qed

subsection \<open>Evaluation of the scenarios\<close>

lemma scan_next: "find_prev_poa params_next chain_next 9 = Inr 5"
  by (simp add: find_prev_poa.simps params_next_def chain_next_def chain_at_def pos_block_def poa_block_def)

lemma scan_short: "find_prev_poa params_short chain_short 7 = Inr 5"
  by (simp add: find_prev_poa.simps params_short_def chain_short_def chain_at_def plain_block_def)

lemma scan_boundary: "find_prev_poa params_boundary chain_next 9 = Inr 5"
  by (simp add: find_prev_poa.simps params_boundary_def chain_next_def chain_at_def pos_block_def poa_block_def)

lemma scan_wide: "find_prev_poa params_wide chain_short 7 = Inr 5"
  by (simp add: find_prev_poa.simps params_wide_def chain_short_def chain_at_def plain_block_def)

lemma run_wide: "GetListOfPoSInfo params_wide rv chain_short 7 [] = Inl NullPointer"
  unfolding GetListOfPoSInfo_def scan_wide
  by (simp add: audit_from_pow.simps params_wide_def chain_short_def chain_at_def)

lemma pos_heights_next: "filter (is_pos_at chain_next) [4 ..< 10] = [4, 6, 7, 8, 9]"
proof -
  have "[4 ..< 10] = [4, 5, 6, 7, 8, 9 :: nat]" by code_simp
  then show ?thesis
    by (simp add: is_pos_at_def chain_at_def chain_next_def pos_block_def poa_block_def)
qed

lemma eval_next_all_pass:
  "GetListOfPoSInfo params_next (\<lambda>_. True) chain_next 9 [] =
     Inr (5, map (\<lambda>h. \<lparr>pos_hash = of_nat h, pos_nTime = of_nat (1000 + h), pos_height = h\<rparr>) [4, 6, 7, 8, 9])"
  unfolding GetListOfPoSInfo_def scan_next
  by (simp add: audit_after_poa.simps params_next_def chain_next_def chain_at_def pos_block_def
        poa_block_def make_summary_def Let_def)

subsection \<open>The first PoA block\<close>

text \<open>
  C5 (amended). When the backward scan finds no PoA block down to \<open>START_POA_BLOCK\<close>
  and the active chain reaches height \<open>LAST_POW_BLOCK + MAX_NUM_POS_BLOCKS_AUDITED\<close>, the
  enumeration appends exactly \<open>MAX_NUM_POS_BLOCKS_AUDITED\<close> summaries, for the heights
  \<open>LAST_POW_BLOCK + 1\<close> up to \<open>LAST_POW_BLOCK + MAX_NUM_POS_BLOCKS_AUDITED\<close> in ascending
  order; before the hard fork the template built from them pays half a coin per
  summary.
\<close>

theorem poa_first_audit_enumeration:
  assumes start: "0 < START_POA_BLOCK P"
    and tip: "START_POA_BLOCK P < length c" "length c \<le> 2 ^ 31"
    and nopoa: "\<forall>h. START_POA_BLOCK P \<le> h \<and> h < length c \<longrightarrow> \<not> IsPoABlockByVersion (c ! h)"
    and cover: "LAST_POW_BLOCK P + MAX_NUM_POS_BLOCKS_AUDITED P < length c"
  shows "(\<exists>n audits. GetListOfPoSInfo P rv c (length c - 1) [] = Inr (n, audits) \<and>
            n < START_POA_BLOCK P \<and>
            length audits = MAX_NUM_POS_BLOCKS_AUDITED P \<and>
            map pos_height audits =
              [LAST_POW_BLOCK P + 1 ..< LAST_POW_BLOCK P + MAX_NUM_POS_BLOCKS_AUDITED P + 1]) \<and>
         (0 < MAX_NUM_POS_BLOCKS_AUDITED P \<and> length c - 1 < HardFork P \<and>
          CreateCommitment e ((int (MAX_NUM_POS_BLOCKS_AUDITED P) * COIN P) div 2) \<noteq> None \<and>
          ScriptSize e [ScriptNum (int (length c)), ScriptNum 1, COINBASE_FLAGS] \<le> 100 \<longrightarrow>
          (\<exists>tmpl tx out. CreateNewPoABlock P e c spk pub priv = Inr (Some tmpl) \<and>
             map pos_height (blk_posBlocksAudited (block tmpl)) =
               [LAST_POW_BLOCK P + 1 ..< LAST_POW_BLOCK P + MAX_NUM_POS_BLOCKS_AUDITED P + 1] \<and>
             vtx (block tmpl) = [tx] \<and> vout tx = [out] \<and>
             nValue out = (int (MAX_NUM_POS_BLOCKS_AUDITED P) * COIN P) div 2))"
proof -
  define hs where "hs = [LAST_POW_BLOCK P + 1 ..< LAST_POW_BLOCK P + MAX_NUM_POS_BLOCKS_AUDITED P + 1]"
  have len: "length hs = MAX_NUM_POS_BLOCKS_AUDITED P" by (simp add: hs_def)
  have ne: "c \<noteq> []" using tip by auto
  have tl: "length c - 1 < length c" using tip by simp
  have np: "\<forall>h. START_POA_BLOCK P \<le> h \<and> h \<le> length c - 1 \<longrightarrow> \<not> IsPoABlockByVersion (c ! h)"
    using nopoa tip by auto
  have ge: "START_POA_BLOCK P \<le> length c - 1" using tip by simp
  have get: "GetListOfPoSInfo P r c (length c - 1) [] =
               Inr (START_POA_BLOCK P - 1, map (\<lambda>h. make_summary r (c ! h) h) hs)" for r
    using GetListOfPoSInfo_first [OF start tl tip(2) np cover, of r "[]"] ge
    unfolding hs_def by simp
  have A: "\<exists>n audits. GetListOfPoSInfo P rv c (length c - 1) [] = Inr (n, audits) \<and>
            n < START_POA_BLOCK P \<and>
            length audits = MAX_NUM_POS_BLOCKS_AUDITED P \<and> map pos_height audits = hs"
    unfolding get [of rv] using start len by (simp add: map_height_summary)
  have B: "\<exists>tmpl tx out. CreateNewPoABlock P e c spk pub priv = Inr (Some tmpl) \<and>
             map pos_height (blk_posBlocksAudited (block tmpl)) = hs \<and>
             vtx (block tmpl) = [tx] \<and> vout tx = [out] \<and>
             nValue out = (int (MAX_NUM_POS_BLOCKS_AUDITED P) * COIN P) div 2"
    if pos: "0 < MAX_NUM_POS_BLOCKS_AUDITED P" and pre: "length c - 1 < HardFork P"
      and cm: "CreateCommitment e ((int (MAX_NUM_POS_BLOCKS_AUDITED P) * COIN P) div 2) \<noteq> None"
      and sz: "ScriptSize e [ScriptNum (int (length c)), ScriptNum 1, COINBASE_FLAGS] \<le> 100"
  proof -
    obtain cmv where cmv: "CreateCommitment e ((int (MAX_NUM_POS_BLOCKS_AUDITED P) * COIN P) div 2) = Some cmv"
      using cm by auto
    have get': "GetListOfPoSInfo P (ReVerifyPoSBlock e) c (length c - Suc 0) [] =
               Inr (START_POA_BLOCK P - 1, map (\<lambda>h. make_summary (ReVerifyPoSBlock e) (c ! h) h) hs)"
      using get [of "ReVerifyPoSBlock e"] by simp
    have rew: "poa_reward P (length c - Suc 0) (length hs)
                 = (int (MAX_NUM_POS_BLOCKS_AUDITED P) * COIN P) div 2"
      using pre by (simp add: poa_reward_def len)
    have nonempty: "hs \<noteq> []"
      using pos len by auto
    have lc: "Suc (length c - 1) = length c" using ne by simp
    have nps: "\<not> START_POA_BLOCK P \<le> START_POA_BLOCK P - 1" using start by simp
    have ntip: "\<not> length c - 1 < START_POA_BLOCK P" using ge by simp
    show ?thesis
      unfolding CreateNewPoABlock_def
      using ne ntip nonempty nps sz lc
      by (simp add: get' rew cmv Let_def map_height_summary new_coinbase_def)
  qed
  from A B show ?thesis unfolding hs_def by blast
qed

text \<open>
  The scenario of the first PoA block: heights 201 to 259 are audited and the coinbase
  pays \<open>59 * 0.5 * COIN\<close>.
\<close>

theorem poa_first_audit_enumeration_witness:
  "\<exists>tmpl tx out. CreateNewPoABlock params_first (ext0 :: unit Externals) chain_first [] [] [] = Inr (Some tmpl) \<and>
      map pos_height (blk_posBlocksAudited (block tmpl)) = [201 ..< 260] \<and>
      length (blk_posBlocksAudited (block tmpl)) = 59 \<and>
      vtx (block tmpl) = [tx] \<and> vout tx = [out] \<and> nValue out = 2950000000"
proof -
  have "\<exists>tmpl tx out. CreateNewPoABlock params_first (ext0 :: unit Externals) chain_first [] [] [] = Inr (Some tmpl) \<and>
      map pos_height (blk_posBlocksAudited (block tmpl)) = [201 ..< 260] \<and>
      vtx (block tmpl) = [tx] \<and> vout tx = [out] \<and> nValue out = 2950000000"
    using poa_first_audit_enumeration [where P = params_first and c = chain_first and e = "ext0 :: unit Externals"
            and rv = "\<lambda>_. True" and spk = "[]" and pub = "[]" and priv = "[]"]
    by (simp add: params_first_def chain_first_def ext0_def plain_block_def
          del: upt_Suc upt_rec_numeral)
  then obtain tmpl tx out where
    t: "CreateNewPoABlock params_first (ext0 :: unit Externals) chain_first [] [] [] = Inr (Some tmpl)"
       "map pos_height (blk_posBlocksAudited (block tmpl)) = [201 ..< 260]"
       "vtx (block tmpl) = [tx]" "vout tx = [out]" "nValue out = 2950000000"
    by blast
  from t(2) have "length (map pos_height (blk_posBlocksAudited (block tmpl))) = length [201 ..< 260::nat]"
    by simp
  then have "length (blk_posBlocksAudited (block tmpl)) = 59" by simp
  with t show ?thesis by blast
qed

text \<open>
  Without the bound on the chain the statement of C5 fails: on a chain of eight blocks
  with no PoA block, whose tip is at \<open>START_POA_BLOCK + 1\<close>, the range
  \<open>LAST_POW_BLOCK + 1 .. LAST_POW_BLOCK + MAX_NUM_POS_BLOCKS_AUDITED\<close> ends at height 11;
  the loop of lines 116 to 123 dereferences \<open>chainActive[8]\<close>, which is null, and no
  list and no template is produced.
\<close>

theorem poa_first_audit_short_chain:
  "list_all (\<lambda>b. \<not> IsPoABlockByVersion b) chain_short \<and>
   START_POA_BLOCK params_wide \<le> length chain_short - 1 \<and>
   \<not> LAST_POW_BLOCK params_wide + MAX_NUM_POS_BLOCKS_AUDITED params_wide < length chain_short \<and>
   GetListOfPoSInfo params_wide (\<lambda>_. True) chain_short (length chain_short - 1) [] = Inl NullPointer \<and>
   CreateNewPoABlock params_wide (ext0 :: unit Externals) chain_short [] [] []
     = Inl (Raised NullPointer)"
proof -
  have len: "length chain_short - 1 = 7" by (simp add: chain_short_def)
  have "list_all (\<lambda>b. \<not> IsPoABlockByVersion b) chain_short"
    by (simp add: chain_short_def plain_block_def list_all_iff)
  moreover have "CreateNewPoABlock params_wide (ext0 :: unit Externals) chain_short [] [] []
     = Inl (Raised NullPointer)"
    unfolding CreateNewPoABlock_def Let_def len run_wide
    by (simp add: params_wide_def chain_short_def)
  ultimately show ?thesis
    unfolding len by (simp add: run_wide) (simp add: params_wide_def chain_short_def)
qed

subsection \<open>Re-verification\<close>

text \<open>
  C6. Re-verification decides the time of a summary and nothing else. The audit list under
  any re-verification verdicts is the list under all-passing verdicts with the time of
  every failing block set to zero. Every summary of a returned list is the summary made of
  the active block at its height, with its hash and height and with its time or zero, and
  the heights listed do not depend on the verdicts: they are the whole range
  \<open>LAST_POW_BLOCK + 1 .. LAST_POW_BLOCK + MAX_NUM_POS_BLOCKS_AUDITED\<close> for the first PoA
  block, and the first \<open>MAX_NUM_POS_BLOCKS_AUDITED\<close> proof-of-stake heights after the last
  audited height up to the tip in a continuation, so no block is left out because it
  fails. The enumeration does return a list in both cases when the blocks it reads exist.
\<close>

theorem failed_reverify_still_recorded:
  "GetListOfPoSInfo P rv c h [] =
     map_sum id (map_prod id (map (zero_time_if_failed rv))) (GetListOfPoSInfo P (\<lambda>_. True) c h [])
   \<and> (GetListOfPoSInfo P rv c h [] = Inr (n, audits) \<longrightarrow>
        audits = map (\<lambda>k. make_summary rv (c ! k) k) (map pos_height audits) \<and>
        (\<forall>s\<in>set audits. recorded rv c s) \<and>
        (n \<le> START_POA_BLOCK P \<longrightarrow>
           map pos_height audits =
             [LAST_POW_BLOCK P + 1 ..< LAST_POW_BLOCK P + MAX_NUM_POS_BLOCKS_AUDITED P + 1]) \<and>
        (START_POA_BLOCK P < n \<and> 0 < MAX_NUM_POS_BLOCKS_AUDITED P \<longrightarrow>
           (\<exists>pb blk. chain_at c n = Some pb \<and> ReadBlockFromDisk pb = Some blk \<and>
              map pos_height audits =
                take (MAX_NUM_POS_BLOCKS_AUDITED P)
                  (filter (is_pos_at c)
                     [(pos_height (last (posBlocksAudited blk)) + 1) mod 2 ^ 32 ..< h + 1]))))
   \<and> (find_prev_poa P c h = Inr n \<and> n \<le> START_POA_BLOCK P \<and>
        LAST_POW_BLOCK P + MAX_NUM_POS_BLOCKS_AUDITED P < length c \<and> length c \<le> 2 ^ 31 \<longrightarrow>
        (\<exists>listed. GetListOfPoSInfo P rv c h [] = Inr (n, listed)))
   \<and> (find_prev_poa P c h = Inr n \<and> START_POA_BLOCK P < n \<and> h < length c \<and> length c \<le> 2 ^ 31 \<and>
        (\<forall>k\<le>h. \<exists>blk. ReadBlockFromDisk (c ! k) = Some blk \<and>
                (IsPoABlockByVersion (c ! k) \<longrightarrow> posBlocksAudited blk \<noteq> [])) \<longrightarrow>
        (\<exists>listed. GetListOfPoSInfo P rv c h [] = Inr (n, listed)))"
proof -
  have eq: "GetListOfPoSInfo P rv c h [] =
     map_sum id (map_prod id (map (zero_time_if_failed rv))) (GetListOfPoSInfo P (\<lambda>_. True) c h [])"
    using GetListOfPoSInfo_mark [of P rv c h "[]"] by simp
  have content: "audits = map (\<lambda>k. make_summary rv (c ! k) k) (map pos_height audits) \<and>
        (\<forall>s\<in>set audits. recorded rv c s) \<and>
        (n \<le> START_POA_BLOCK P \<longrightarrow>
           map pos_height audits =
             [LAST_POW_BLOCK P + 1 ..< LAST_POW_BLOCK P + MAX_NUM_POS_BLOCKS_AUDITED P + 1]) \<and>
        (START_POA_BLOCK P < n \<and> 0 < MAX_NUM_POS_BLOCKS_AUDITED P \<longrightarrow>
           (\<exists>pb blk. chain_at c n = Some pb \<and> ReadBlockFromDisk pb = Some blk \<and>
              map pos_height audits =
                take (MAX_NUM_POS_BLOCKS_AUDITED P)
                  (filter (is_pos_at c)
                     [(pos_height (last (posBlocksAudited blk)) + 1) mod 2 ^ 32 ..< h + 1])))"
    if run: "GetListOfPoSInfo P rv c h [] = Inr (n, audits)"
  proof -
    have rec: "\<forall>s\<in>set audits. recorded rv c s"
      using GetListOfPoSInfo_sound [OF run] by simp
    have each: "s = make_summary rv (c ! pos_height s) (pos_height s)" if "s \<in> set audits" for s
      using rec that chain_at_SomeD [of c "pos_height s"]
      by (auto simp: recorded_def split: option.splits)
    have self: "audits = map (\<lambda>k. make_summary rv (c ! k) k) (map pos_height audits)"
      using each by (simp add: map_idI comp_def)
    from GetListOfPoSInfo_exact [OF run] rec self show ?thesis
      by (auto simp: map_height_summary)
  qed
  have r1: "\<exists>listed. GetListOfPoSInfo P rv c h [] = Inr (n, listed)"
    if "find_prev_poa P c h = Inr n" "n \<le> START_POA_BLOCK P"
      "LAST_POW_BLOCK P + MAX_NUM_POS_BLOCKS_AUDITED P < length c" "length c \<le> 2 ^ 31"
    using GetListOfPoSInfo_first_branch [OF that, of rv "[]"] by simp
  have r2: "\<exists>listed. GetListOfPoSInfo P rv c h [] = Inr (n, listed)"
    if "find_prev_poa P c h = Inr n" "START_POA_BLOCK P < n" "h < length c" "length c \<le> 2 ^ 31"
      "\<forall>k\<le>h. \<exists>blk. ReadBlockFromDisk (c ! k) = Some blk \<and>
                (IsPoABlockByVersion (c ! k) \<longrightarrow> posBlocksAudited blk \<noteq> [])"
    using GetListOfPoSInfo_returns_after_poa [OF that] .
  from eq content r1 r2 show ?thesis by blast
qed

text \<open>
  A first PoA block whose three audited blocks all fail re-verification, and a
  continuation in which the block at height 8 fails: all are listed, the failing ones
  with time zero.
\<close>

theorem failed_reverify_still_recorded_witness:
  "GetListOfPoSInfo params_short (\<lambda>_. False) chain_short 7 [] =
     Inr (5, [\<lparr>pos_hash = 7, pos_nTime = 0, pos_height = 2\<rparr>,
              \<lparr>pos_hash = 7, pos_nTime = 0, pos_height = 3\<rparr>,
              \<lparr>pos_hash = 7, pos_nTime = 0, pos_height = 4\<rparr>]) \<and>
   GetListOfPoSInfo params_next reverify_next chain_next 9 [] =
     Inr (5, [\<lparr>pos_hash = 4, pos_nTime = 1004, pos_height = 4\<rparr>,
              \<lparr>pos_hash = 6, pos_nTime = 1006, pos_height = 6\<rparr>,
              \<lparr>pos_hash = 7, pos_nTime = 1007, pos_height = 7\<rparr>,
              \<lparr>pos_hash = 8, pos_nTime = 0, pos_height = 8\<rparr>,
              \<lparr>pos_hash = 9, pos_nTime = 1009, pos_height = 9\<rparr>])"
proof -
  have u: "[Suc (Suc 0) ..< 5] = [2, 3, 4]" by code_simp
  note first = failed_reverify_still_recorded [where P = params_short and rv = "\<lambda>_. False"
      and c = chain_short and h = 7 and n = 5]
  from first [THEN conjunct2, THEN conjunct2, THEN conjunct1] scan_short
  obtain listed where l: "GetListOfPoSInfo params_short (\<lambda>_. False) chain_short 7 [] = Inr (5, listed)"
    by (auto simp: params_short_def chain_short_def)
  note raw = first [where audits = listed, THEN conjunct2, THEN conjunct1, THEN mp, OF l]
  from raw [THEN conjunct2, THEN conjunct2, THEN conjunct1]
  have h1: "map pos_height listed = [2, 3, 4]"
    by (simp add: params_short_def u)
  from raw [THEN conjunct1] have a: "listed = [\<lparr>pos_hash = 7, pos_nTime = 0, pos_height = 2\<rparr>,
              \<lparr>pos_hash = 7, pos_nTime = 0, pos_height = 3\<rparr>,
              \<lparr>pos_hash = 7, pos_nTime = 0, pos_height = 4\<rparr>]"
    unfolding h1 by (simp add: make_summary_def chain_short_def plain_block_def)
  note nxt = failed_reverify_still_recorded [where P = params_next and rv = reverify_next
      and c = chain_next and h = 9 and n = 5]
  have rd: "\<forall>k\<le>9. \<exists>blk. ReadBlockFromDisk (chain_next ! k) = Some blk \<and>
              (IsPoABlockByVersion (chain_next ! k) \<longrightarrow> posBlocksAudited blk \<noteq> [])"
  proof (intro allI impI)
    fix k :: nat assume "k \<le> 9"
    then have "k \<in> {0, 1, 2, 3, 4, 5, 6, 7, 8, 9}" by auto
    then show "\<exists>blk. ReadBlockFromDisk (chain_next ! k) = Some blk \<and>
              (IsPoABlockByVersion (chain_next ! k) \<longrightarrow> posBlocksAudited blk \<noteq> [])"
      by (auto simp: chain_next_def pos_block_def poa_block_def)
  qed
  from nxt [THEN conjunct2, THEN conjunct2, THEN conjunct2] scan_next rd
  obtain listed2 where l2: "GetListOfPoSInfo params_next reverify_next chain_next 9 [] = Inr (5, listed2)"
    by (auto simp: params_next_def chain_next_def)
  note raw2 = nxt [where audits = listed2, THEN conjunct2, THEN conjunct1, THEN mp, OF l2]
  from raw2 [THEN conjunct2, THEN conjunct2, THEN conjunct2]
  have "\<exists>pb blk. chain_at chain_next 5 = Some pb \<and> ReadBlockFromDisk pb = Some blk \<and>
           map pos_height listed2 =
             take 59 (filter (is_pos_at chain_next)
                        [(pos_height (last (posBlocksAudited blk)) + 1) mod 2 ^ 32 ..< 9 + 1])"
    by (simp add: params_next_def)
  then obtain pb blk where pb: "chain_at chain_next 5 = Some pb"
    and blk: "ReadBlockFromDisk pb = Some blk"
    and hs: "map pos_height listed2 =
             take 59 (filter (is_pos_at chain_next)
                        [(pos_height (last (posBlocksAudited blk)) + 1) mod 2 ^ 32 ..< 9 + 1])"
    by blast
  from pb have "pb = poa_block 5 3"
    by (simp add: chain_at_def chain_next_def)
  with blk have "(pos_height (last (posBlocksAudited blk)) + 1) mod 2 ^ 32 = 4"
    by (auto simp: poa_block_def)
  with hs have "map pos_height listed2 = take 59 (filter (is_pos_at chain_next) [4 ..< 10])"
    by simp
  then have h2: "map pos_height listed2 = [4, 6, 7, 8, 9]"
    unfolding pos_heights_next by simp
  from raw2 [THEN conjunct1] have b: "listed2 = [\<lparr>pos_hash = 4, pos_nTime = 1004, pos_height = 4\<rparr>,
              \<lparr>pos_hash = 6, pos_nTime = 1006, pos_height = 6\<rparr>,
              \<lparr>pos_hash = 7, pos_nTime = 1007, pos_height = 7\<rparr>,
              \<lparr>pos_hash = 8, pos_nTime = 0, pos_height = 8\<rparr>,
              \<lparr>pos_hash = 9, pos_nTime = 1009, pos_height = 9\<rparr>]"
    unfolding h2 by (simp add: make_summary_def chain_next_def pos_block_def reverify_next_def)
  from l a l2 b show ?thesis by simp
qed

subsection \<open>The proof-of-stake test\<close>

text \<open>
  C9 (amended). When the backward scan ends at or below \<open>START_POA_BLOCK\<close> (no PoA block
  above \<open>START_POA_BLOCK\<close>; a PoA block exactly at \<open>START_POA_BLOCK\<close> ends the scan
  there), a summary is appended for every height from \<open>LAST_POW_BLOCK + 1\<close> to
  \<open>LAST_POW_BLOCK + MAX_NUM_POS_BLOCKS_AUDITED\<close>, whatever the blocks there are (they are
  not read from disk): this is the list whenever the enumeration returns one, and it
  returns one when the active chain reaches the last of these heights. Only when a
  previous PoA block is found above \<open>START_POA_BLOCK\<close> are the blocks that are not
  proof-of-stake skipped: the heights appended are then the first
  \<open>MAX_NUM_POS_BLOCKS_AUDITED\<close> proof-of-stake heights after the last audited height.
\<close>

theorem first_poa_ignores_pos_flag:
  "(find_prev_poa P c h = Inr n \<and> n \<le> START_POA_BLOCK P \<and>
      LAST_POW_BLOCK P + MAX_NUM_POS_BLOCKS_AUDITED P < length c \<and> length c \<le> 2 ^ 31 \<longrightarrow>
      GetListOfPoSInfo P rv c h A =
        Inr (n, A @ map (\<lambda>k. make_summary rv (c ! k) k)
               [LAST_POW_BLOCK P + 1 ..< LAST_POW_BLOCK P + MAX_NUM_POS_BLOCKS_AUDITED P + 1])) \<and>
   (find_prev_poa P c h = Inr n \<and> n \<le> START_POA_BLOCK P \<and>
      GetListOfPoSInfo P rv c h A = Inr (n', A') \<longrightarrow>
      n' = n \<and> A' = A @ map (\<lambda>k. make_summary rv (c ! k) k)
               [LAST_POW_BLOCK P + 1 ..< LAST_POW_BLOCK P + MAX_NUM_POS_BLOCKS_AUDITED P + 1]) \<and>
   (find_prev_poa P c h = Inr n \<and> START_POA_BLOCK P < n \<and>
      GetListOfPoSInfo P rv c h A = Inr (n', A') \<longrightarrow>
      n' = n \<and> (\<exists>new. A' = A @ new \<and> (\<forall>s\<in>set new. is_pos_at c (pos_height s)))) \<and>
   (find_prev_poa P c h = Inr n \<and> START_POA_BLOCK P < n \<and> 0 < MAX_NUM_POS_BLOCKS_AUDITED P \<and>
      GetListOfPoSInfo P rv c h [] = Inr (n', A') \<longrightarrow>
      (\<exists>pb blk. chain_at c n = Some pb \<and> IsPoABlockByVersion pb \<and> ReadBlockFromDisk pb = Some blk \<and>
         map pos_height A' =
           take (MAX_NUM_POS_BLOCKS_AUDITED P)
             (filter (is_pos_at c)
                [(pos_height (last (posBlocksAudited blk)) + 1) mod 2 ^ 32 ..< h + 1])))"
proof -
  have d: "\<exists>pb blk. chain_at c n = Some pb \<and> IsPoABlockByVersion pb \<and> ReadBlockFromDisk pb = Some blk \<and>
         map pos_height A' =
           take (MAX_NUM_POS_BLOCKS_AUDITED P)
             (filter (is_pos_at c)
                [(pos_height (last (posBlocksAudited blk)) + 1) mod 2 ^ 32 ..< h + 1])"
    if scan: "find_prev_poa P c h = Inr n" and gt: "START_POA_BLOCK P < n"
      and pos: "0 < MAX_NUM_POS_BLOCKS_AUDITED P"
      and run: "GetListOfPoSInfo P rv c h [] = Inr (n', A')"
  proof -
    from GetListOfPoSInfo_exact [OF run] scan have nn: "n' = n" by simp
    from GetListOfPoSInfo_exact [OF run] gt pos nn
    obtain pb blk where pb: "chain_at c n = Some pb" and rd: "ReadBlockFromDisk pb = Some blk"
      and a: "A' = map (\<lambda>k. make_summary rv (c ! k) k)
                          (take (MAX_NUM_POS_BLOCKS_AUDITED P)
                             (filter (is_pos_at c)
                                [(pos_height (last (posBlocksAudited blk)) + 1) mod 2 ^ 32 ..< h + 1]))"
      by auto
    from find_prev_poa_found [OF scan] gt pb have "IsPoABlockByVersion pb" by auto
    with pb rd a show ?thesis by (simp add: map_height_summary)
  qed
  show ?thesis
    using GetListOfPoSInfo_first_branch [of P c h n rv A]
      GetListOfPoSInfo_first_exact [of P c h n rv A n' A']
      GetListOfPoSInfo_after_poa_sound [of P c h n rv A n' A'] d
    by blast
qed

text \<open>
  Blocks that are not proof-of-stake are listed for the first PoA block, and the PoA
  block at height 5 is skipped in the continuation.
\<close>

theorem first_poa_ignores_pos_flag_witness:
  "map pos_height (snd (projr (GetListOfPoSInfo params_short (\<lambda>_. True) chain_short 7 []))) = [2, 3, 4] \<and>
   \<not> is_pos_at chain_short 2 \<and> \<not> is_pos_at chain_short 3 \<and> \<not> is_pos_at chain_short 4 \<and>
   map pos_height (snd (projr (GetListOfPoSInfo params_next (\<lambda>_. True) chain_next 9 []))) = [4, 6, 7, 8, 9] \<and>
   list_all (is_pos_at chain_next) [4, 6, 7, 8, 9] \<and> \<not> is_pos_at chain_next 5"
proof -
  have u: "[Suc (Suc 0) ..< 5] = [2, 3, 4]"
    by code_simp
  let ?r = "map (\<lambda>h. \<lparr>pos_hash = of_nat h, pos_nTime = of_nat (1000 + h), pos_height = h\<rparr>)
                    [4, 6, 7, 8, 9]"
  have a: "GetListOfPoSInfo params_short (\<lambda>_. True) chain_short 7 [] =
             Inr (5, map (\<lambda>k. make_summary (\<lambda>_. True) (chain_short ! k) k) [2, 3, 4])"
    using first_poa_ignores_pos_flag [where P = params_short and c = chain_short and h = 7
        and n = 5 and rv = "\<lambda>_. True" and A = "[]", THEN conjunct1] scan_short
    by (simp add: params_short_def chain_short_def u)
  have a': "snd (projr (GetListOfPoSInfo params_short (\<lambda>_. True) chain_short 7 [])) =
              map (\<lambda>k. make_summary (\<lambda>_. True) (chain_short ! k) k) [2, 3, 4]"
    using first_poa_ignores_pos_flag [where P = params_short and c = chain_short and h = 7
        and n = 5 and rv = "\<lambda>_. True" and A = "[]" and n' = 5
        and A' = "map (\<lambda>k. make_summary (\<lambda>_. True) (chain_short ! k) k) [2, 3, 4]",
        THEN conjunct2, THEN conjunct1] scan_short a
    by (simp add: params_short_def u)
  have b: "list_all (is_pos_at chain_next) [4, 6, 7, 8, 9]"
    using first_poa_ignores_pos_flag [where P = params_next and c = chain_next and h = 9
        and n = 5 and rv = "\<lambda>_. True" and A = "[]" and n' = 5 and A' = ?r,
        THEN conjunct2, THEN conjunct2, THEN conjunct1]
      scan_next eval_next_all_pass
    by (simp add: params_next_def)
  from first_poa_ignores_pos_flag [where P = params_next and c = chain_next and h = 9
        and n = 5 and rv = "\<lambda>_. True" and n' = 5 and A' = ?r,
        THEN conjunct2, THEN conjunct2, THEN conjunct2]
      scan_next eval_next_all_pass
  have "\<exists>pb blk. chain_at chain_next 5 = Some pb \<and> IsPoABlockByVersion pb \<and>
          ReadBlockFromDisk pb = Some blk \<and>
          map pos_height ?r = take 59 (filter (is_pos_at chain_next)
                [(pos_height (last (posBlocksAudited blk)) + 1) mod 2 ^ 32 ..< 9 + 1])"
    by (simp add: params_next_def)
  have np: "\<not> is_pos_at chain_short 2 \<and> \<not> is_pos_at chain_short 3 \<and> \<not> is_pos_at chain_short 4 \<and>
            \<not> is_pos_at chain_next 5"
    by (simp add: is_pos_at_def chain_at_def chain_short_def plain_block_def chain_next_def poa_block_def)
  show ?thesis
    using a' b np by (simp add: eval_next_all_pass make_summary_def)
qed

text \<open>
  The statement of C9 fails in two places. With a previous PoA block exactly at
  \<open>START_POA_BLOCK\<close> (height 5) the test of line 114 still takes the loop of the first
  PoA block, which lists the heights 1 to 5 with the PoA block itself, a block that is not
  proof-of-stake. And with no PoA block at all, on a chain that ends below
  \<open>LAST_POW_BLOCK + MAX_NUM_POS_BLOCKS_AUDITED\<close>, no summary list is produced.
\<close>

theorem first_poa_loop_at_boundary:
  "find_prev_poa params_boundary chain_next 9 = Inr 5 \<and>
   IsPoABlockByVersion (chain_next ! 5) \<and>
   GetListOfPoSInfo params_boundary (\<lambda>_. True) chain_next 9 [] =
     Inr (5, [\<lparr>pos_hash = 1, pos_nTime = 1001, pos_height = 1\<rparr>,
              \<lparr>pos_hash = 2, pos_nTime = 1002, pos_height = 2\<rparr>,
              \<lparr>pos_hash = 3, pos_nTime = 1003, pos_height = 3\<rparr>,
              \<lparr>pos_hash = 4, pos_nTime = 1004, pos_height = 4\<rparr>,
              \<lparr>pos_hash = 5, pos_nTime = 1005, pos_height = 5\<rparr>]) \<and>
   \<not> is_pos_at chain_next 5 \<and>
   find_prev_poa params_wide chain_short 7 = Inr 5 \<and>
   list_all (\<lambda>b. \<not> IsPoABlockByVersion b) chain_short \<and>
   GetListOfPoSInfo params_wide (\<lambda>_. False) chain_short 7 [] = Inl NullPointer"
proof -
  have "GetListOfPoSInfo params_boundary (\<lambda>_. True) chain_next 9 [] =
     Inr (5, [\<lparr>pos_hash = 1, pos_nTime = 1001, pos_height = 1\<rparr>,
              \<lparr>pos_hash = 2, pos_nTime = 1002, pos_height = 2\<rparr>,
              \<lparr>pos_hash = 3, pos_nTime = 1003, pos_height = 3\<rparr>,
              \<lparr>pos_hash = 4, pos_nTime = 1004, pos_height = 4\<rparr>,
              \<lparr>pos_hash = 5, pos_nTime = 1005, pos_height = 5\<rparr>])"
    unfolding GetListOfPoSInfo_def scan_boundary
    by (simp add: audit_from_pow.simps params_boundary_def chain_next_def chain_at_def
          make_summary_def pos_block_def poa_block_def)
  moreover have "IsPoABlockByVersion (chain_next ! 5) \<and> \<not> is_pos_at chain_next 5"
    by (simp add: is_pos_at_def chain_at_def chain_next_def poa_block_def)
  moreover have "list_all (\<lambda>b. \<not> IsPoABlockByVersion b) chain_short"
    by (simp add: chain_short_def plain_block_def list_all_iff)
  ultimately show ?thesis
    by (simp add: scan_boundary scan_wide run_wide)
qed

section \<open>Properties of the transaction selection\<close>

lemma wake_dependers_keeps:
  "nBlockSize (wake_dependers h ps s) = nBlockSize s \<and>
   sel_vtx (wake_dependers h ps s) = sel_vtx s \<and>
   view (wake_dependers h ps s) = view s \<and>
   mapDependers (wake_dependers h ps s) = mapDependers s \<and>
   fSortedByFee (wake_dependers h ps s) = fSortedByFee s \<and>
   nFees (wake_dependers h ps s) = nFees s"
  by (induction ps arbitrary: s) (simp_all add: Let_def)

lemma wake_dependers_none: "wake_dependers h [] s = s"
  by simp

lemma block_limits_range:
  "1000 \<le> nBlockMaxSize (block_limits e) \<and> nBlockMaxSize (block_limits e) < 2 ^ 32"
proof -
  have "to_uint x < 2 ^ 32" for x
    by (simp add: to_uint_def nat_less_iff)
  then show ?thesis
    by (simp add: block_limits_def Let_def min_less_iff_disj)
qed

text \<open>One pass either admits nothing or appends one transaction whose size fits.\<close>

lemma select_step_cases:
  assumes "vecPriority s \<noteq> []"
  shows "(sel_vtx (select_step e lims nHeight s) = sel_vtx s \<and>
          nBlockSize (select_step e lims nHeight s) = nBlockSize s) \<or>
         (\<exists>entry\<in>set (vecPriority s).
            sel_vtx (select_step e lims nHeight s) = sel_vtx s @ [snd (snd entry)] \<and>
            nBlockSize (select_step e lims nHeight s) =
              (nBlockSize s + GetSerializeSize e (snd (snd entry)) mod 2 ^ 32) mod 2 ^ 64 \<and>
            nBlockSize (select_step e lims nHeight s) < nBlockMaxSize lims \<and>
            CheckHaveInputs e (view s) (snd (snd entry)) \<and>
            CheckInputs e (view s) (snd (snd entry)))"
proof -
  obtain front rest where vec: "vecPriority s = front # rest"
    using assms by (cases "vecPriority s") auto
  have fin: "front \<in> set (vecPriority s)"
    by (simp add: vec)
  show ?thesis
    unfolding select_step_def vec list.case Let_def
    unfolding vec [symmetric]
    using fin
    by (auto simp: wake_dependers_keeps not_le intro!: bexI [of _ front])
qed

lemma select_loop_visited:
  "visited e lims nHeight s0 s \<Longrightarrow> visited e lims nHeight s0 (select_loop e lims nHeight s)"
proof (induction e lims nHeight s rule: select_loop.induct)
  case (1 e lims nHeight s)
  show ?case
  proof (cases "vecPriority s = []")
    case True
    then have "select_loop e lims nHeight s = s" by (subst select_loop.simps) simp
    with "1.prems" show ?thesis by simp
  next
    case False
    then have "select_loop e lims nHeight s = select_loop e lims nHeight (select_step e lims nHeight s)"
      by (subst select_loop.simps) simp
    moreover have "visited e lims nHeight s0 (select_step e lims nHeight s)"
      using "1.prems" False by (rule visited.pass)
    ultimately show ?thesis using "1.IH" [OF False] by simp
  qed
qed

lemma counter_invariant:
  assumes "visited e lims nHeight s0 s"
    and "s0 = initial_selection lims v vec txs fees sigops"
    and "1000 \<le> nBlockMaxSize lims"
  shows "nBlockSize s < nBlockMaxSize lims \<or> (nBlockSize s = 1000 \<and> sel_vtx s = txs \<and> nBlockMaxSize lims = 1000)"
  using assms
proof (induction rule: visited.induct)
  case entered
  then show ?case by (auto simp: initial_selection_def)
next
  case (pass s)
  from select_step_cases [OF pass.hyps(2), of e lims nHeight] pass.IH pass.prems
  show ?case by auto
qed

lemmas eval_select = select_transactions_def select_loop.simps select_step_def initial_selection_def
  block_limits_def to_uint_def TxPriorityCompare_def make_heap_def pop_heap_def Let_def

text \<open>
  An unspent input that spends a blacklisted outpoint ends the check of the inputs with
  the flag still set, whatever follows it.
\<close>

lemma key_image_check_stops_at_blacklisted:
  "\<not> IsSpentKeyImage e (keyImage txin) \<Longrightarrow> ContainsOutPoint e (prevout txin) \<Longrightarrow>
     key_image_check e (txin # rest)"
  by simp

text \<open>
  A duplicate found after fresh key images leaves those in the set of the build.
\<close>

lemma note_key_images_keeps_prefix:
  "keyImage a \<notin> keyImages \<Longrightarrow> keyImage b \<in> insert (keyImage a) keyImages \<Longrightarrow>
     note_key_images (a # b # rest) keyImages = (True, insert (keyImage a) keyImages)"
  by simp

text \<open>
  C1. The selection does not reject a transaction for a blacklisted input: the test of
  the invalid-outputs set leaves the loop over the inputs without clearing
  \<open>fKeyImageCheck\<close>. A transaction whose only input spends the blacklisted outpoint
  enters \<open>vecPriority\<close> and the template; and when the blacklisted input comes first, an
  input after it whose key image is spent on chain is not looked at either.
\<close>

theorem blacklisted_input_is_selected:
  "ContainsOutPoint ext_blacklist (prevout (hd (vin (spend [11] 10000)))) \<and>
   fst (collect_candidates ext_blacklist () 0 [spend [11] 10000] ([], {}))
     = [(0, 40000, spend [11] 10000)] \<and>
   sel_vtx (select_transactions ext_blacklist () 0 [spend [11] 10000] [] [] [])
     = [spend [11] 10000] \<and>
   IsSpentKeyImage ext_blacklist (keyImage (vin (spend [11, 12] 10000) ! 1)) \<and>
   sel_vtx (select_transactions ext_blacklist () 0 [spend [11, 12] 10000] [] [] [])
     = [spend [11, 12] 10000]"
  by (simp add: eval_select ext_blacklist_def ext0_def spend_def bad_outpoint_def)

text \<open>
  C2. Of the transactions \<open>spend [5]\<close>, \<open>spend [6, 5]\<close> and \<open>spend [6]\<close>, the first is
  admitted and the second is skipped for the shared key image 5; but key image 6 of the
  skipped transaction has entered the set of the build before the duplicate was met, so
  the set is \<open>{5, 6}\<close> and the third transaction, which shares no key image with an
  admitted one, is skipped too.
\<close>

theorem skipped_duplicate_leaves_key_images:
  "collect_candidates (ext0 :: unit Externals) () 0
     [spend [5] 10000, spend [6, 5] 20000, spend [6] 30000] ([], {})
     = ([(0, 40000, spend [5] 10000)], {5, 6})"
  by (simp add: ext0_def spend_def) auto

lemma collect_candidates_entries:
  assumes "collect_candidates e v h mapTx acc = (vec', ks')"
    and "x \<in> set vec'"
  shows "x \<in> set (fst acc) \<or>
         (snd (snd x) \<in> set mapTx \<and> \<not> IsCoinStake e (snd (snd x)) \<and>
          CheckHaveInputs e v (snd (snd x)))"
  using assms
proof (induction mapTx arbitrary: acc)
  case Nil
  then show ?case by simp
next
  case (Cons tx rest)
  obtain vec ks where acc: "acc = (vec, ks)" by (cases acc)
  obtain d ks1 where nk: "note_key_images (vin tx) ks = (d, ks1)"
    by (cases "note_key_images (vin tx) ks")
  show ?case
  proof (cases "IsCoinBase e tx \<or> IsCoinStake e tx \<or> \<not> IsFinalTx e tx (h + 1) \<or>
                \<not> key_image_check e (vin tx) \<or> \<not> CheckHaveInputs e v tx")
    case True
    then have "collect_candidates e v h (tx # rest) acc = collect_candidates e v h rest (vec, ks)"
      by (auto simp: acc)
    with Cons.prems Cons.IH [of "(vec, ks)"] show ?thesis by (auto simp: acc)
  next
    case ok: False
    show ?thesis
    proof (cases d)
      case True
      then have "collect_candidates e v h (tx # rest) acc = collect_candidates e v h rest (vec, ks1)"
        using ok nk by (simp add: acc Let_def)
      with Cons.prems Cons.IH [of "(vec, ks1)"] show ?thesis by (auto simp: acc)
    next
      case False
      define entry where
        "entry = (ApplyDeltas e (GetHash e tx) (GetPriority e tx h),
                  FeeRate e (nTxFee tx) (GetSerializeSize e tx mod 2 ^ 32), tx)"
      have "collect_candidates e v h (tx # rest) acc
              = collect_candidates e v h rest (vec @ [entry], ks1)"
        using ok nk False by (simp add: acc Let_def entry_def)
      with Cons.prems Cons.IH [of "(vec @ [entry], ks1)"]
      have "x \<in> set (vec @ [entry]) \<or>
            (snd (snd x) \<in> set rest \<and> \<not> IsCoinStake e (snd (snd x)) \<and>
             CheckHaveInputs e v (snd (snd x)))"
        by simp
      with ok show ?thesis by (auto simp: acc entry_def)
    qed
  qed
qed

lemma select_step_without_orphans:
  assumes ne: "vecPriority s \<noteq> []"
    and nodep: "mapDependers s = (\<lambda>_. [])"
    and nostake: "\<forall>x\<in>set (vecPriority s). \<not> IsCoinStake e (snd (snd x))"
  shows "mapDependers (select_step e lims nHeight s) = (\<lambda>_. []) \<and>
         vOrphan (select_step e lims nHeight s) = vOrphan s \<and>
         view (select_step e lims nHeight s) = view s \<and>
         set (vecPriority (select_step e lims nHeight s)) \<subseteq> set (vecPriority s)"
proof -
  obtain front rest where vec: "vecPriority s = front # rest"
    using ne by (cases "vecPriority s") auto
  define popped where
    "popped = butlast (pop_heap (TxPriorityCompare (fSortedByFee s)) (vecPriority s))"
  have fin: "front \<in> set (vecPriority s)"
    by (simp add: vec)
  then have ns: "\<not> IsCoinStake e (snd (snd front))" using nostake by blast
  have sub: "set popped \<subseteq> set (vecPriority s)"
    using pop_heap_set [of "TxPriorityCompare (fSortedByFee s)" "vecPriority s"]
    by (auto simp: popped_def dest: in_set_butlastD)
  then have sub': "set (make_heap (TxPriorityCompare True) popped) \<subseteq> set (vecPriority s)"
    using make_heap_set [of "TxPriorityCompare True" popped] by blast
  show ?thesis
    unfolding select_step_def vec list.case Let_def
    unfolding vec [symmetric] popped_def [symmetric]
    using ns sub sub' nodep by (simp add: subset_iff)
qed

lemma no_orphan_invariant:
  assumes "visited e lims nHeight s0 s"
    and "s0 = initial_selection lims v vec txs fees sigops"
    and "\<forall>x\<in>set vec. \<not> IsCoinStake e (snd (snd x))"
  shows "vOrphan s = [] \<and> mapDependers s = (\<lambda>_. []) \<and> view s = v \<and>
         set (vecPriority s) \<subseteq> set vec \<and>
         (\<forall>tx\<in>set (sel_vtx s). tx \<in> set txs \<or> (\<exists>x\<in>set vec. tx = snd (snd x)))"
  using assms
proof (induction rule: visited.induct)
  case entered
  then show ?case
    using make_heap_set [of "TxPriorityCompare (nBlockPrioritySize lims = 0)" vec]
    by (simp add: initial_selection_def)
next
  case (pass s)
  have inv: "vOrphan s = []" "mapDependers s = (\<lambda>_. [])" "view s = v"
    "set (vecPriority s) \<subseteq> set vec"
    "\<forall>tx\<in>set (sel_vtx s). tx \<in> set txs \<or> (\<exists>x\<in>set vec. tx = snd (snd x))"
    using pass.IH pass.prems by simp_all
  have ns: "\<forall>x\<in>set (vecPriority s). \<not> IsCoinStake e (snd (snd x))"
    using inv(4) pass.prems(2) by blast
  from select_step_without_orphans [OF pass.hyps(2) inv(2) ns, of lims nHeight]
  have a: "mapDependers (select_step e lims nHeight s) = (\<lambda>_. [])"
    "vOrphan (select_step e lims nHeight s) = []"
    "view (select_step e lims nHeight s) = v"
    "set (vecPriority (select_step e lims nHeight s)) \<subseteq> set vec"
    using inv by auto
  have b: "\<forall>tx\<in>set (sel_vtx (select_step e lims nHeight s)).
             tx \<in> set txs \<or> (\<exists>x\<in>set vec. tx = snd (snd x))"
  proof -
    from select_step_cases [OF pass.hyps(2), of e lims nHeight]
    consider "sel_vtx (select_step e lims nHeight s) = sel_vtx s"
      | entry where "entry \<in> set (vecPriority s)"
          "sel_vtx (select_step e lims nHeight s) = sel_vtx s @ [snd (snd entry)]"
      by blast
    then show ?thesis
    proof cases
      case 1
      with inv(5) show ?thesis by simp
    next
      case 2
      from 2(1) inv(4) have "entry \<in> set vec" by blast
      with 2(2) inv(5) show ?thesis by auto
    qed
  qed
  from a b show ?case by simp
qed

text \<open>
  C3. No orphan is ever registered: at the end of the selection \<open>vOrphan\<close> and
  \<open>mapDependers\<close> are as empty as at its start, and every transaction the selection has
  added comes from the mempool and had its inputs in the coins view of the tip when the
  build began. A transaction that spends an output of another mempool transaction is
  therefore not selected, whether or not that other transaction is.
\<close>

theorem no_orphan_is_tracked:
  assumes "s = select_transactions e v tipHeight mapTx txs fees sigops"
  shows "vOrphan s = [] \<and> mapDependers s = (\<lambda>_. []) \<and>
         (\<forall>tx\<in>set (sel_vtx s). tx \<in> set txs \<or> (tx \<in> set mapTx \<and> CheckHaveInputs e v tx))"
proof -
  define lims where "lims = block_limits e"
  obtain vec ks where cc: "collect_candidates e v tipHeight mapTx ([], {}) = (vec, ks)"
    by (cases "collect_candidates e v tipHeight mapTx ([], {})")
  define s0 where "s0 = initial_selection lims v vec txs fees sigops"
  have s: "s = select_loop e lims (tipHeight + 1) s0"
    using assms by (simp add: select_transactions_def Let_def cc lims_def s0_def)
  have ent: "\<forall>x\<in>set vec. snd (snd x) \<in> set mapTx \<and> \<not> IsCoinStake e (snd (snd x)) \<and>
               CheckHaveInputs e v (snd (snd x))"
    using collect_candidates_entries [OF cc] by auto
  have vis: "visited e lims (tipHeight + 1) s0 s"
    unfolding s by (rule select_loop_visited) (rule visited.entered)
  from no_orphan_invariant [OF vis s0_def] ent
  show ?thesis by blast
qed

text \<open>
  The transaction with hash 7 is admitted; the one that spends its output is not, and
  nothing was registered to bring it back.
\<close>

theorem no_orphan_is_tracked_witness:
  "\<not> CheckHaveInputs ext_dependent {100} (spend [7] 10000) \<and>
   GetHash ext_dependent (spend [100] 10000) = out_hash (prevout (hd (vin (spend [7] 10000)))) \<and>
   sel_vtx (select_transactions ext_dependent {100} 0 [spend [100] 10000, spend [7] 10000] [] [] [])
     = [spend [100] 10000] \<and>
   mapDependers (select_transactions ext_dependent {100} 0
                   [spend [100] 10000, spend [7] 10000] [] [] []) = (\<lambda>_. [])"
proof -
  have run: "sel_vtx (select_transactions ext_dependent {100} 0
                        [spend [100] 10000, spend [7] 10000] [] [] []) = [spend [100] 10000]"
    by (simp add: eval_select ext_dependent_def ext0_def spend_def)
  from no_orphan_is_tracked [OF refl, of ext_dependent "{100}" 0
         "[spend [100] 10000, spend [7] 10000]" "[]" "[]" "[]"] run
  show ?thesis
    by (simp add: ext_dependent_def ext0_def spend_def)
qed

text \<open>
  C4 (amended). At every head of the selection loop the size counter is at most
  \<open>nBlockMaxSize\<close>; it is strictly below unless \<open>nBlockMaxSize\<close> is 1000, the counter is
  still at its initial 1000 and nothing has been admitted. A pass admits at most one
  transaction, and only when the counter plus its serialized size, which becomes the
  new counter, is strictly below \<open>nBlockMaxSize\<close>.
\<close>

theorem block_size_counter_bounded:
  assumes "visited e (block_limits e) nHeight
             (initial_selection (block_limits e) v vec txs fees sigops) s"
  shows "nBlockSize s \<le> nBlockMaxSize (block_limits e) \<and>
         (nBlockSize s < nBlockMaxSize (block_limits e) \<or>
            nBlockSize s = 1000 \<and> sel_vtx s = txs \<and> nBlockMaxSize (block_limits e) = 1000) \<and>
         (vecPriority s \<noteq> [] \<longrightarrow>
            (sel_vtx (select_step e (block_limits e) nHeight s) = sel_vtx s \<and>
             nBlockSize (select_step e (block_limits e) nHeight s) = nBlockSize s) \<or>
            (\<exists>tx. sel_vtx (select_step e (block_limits e) nHeight s) = sel_vtx s @ [tx] \<and>
                  nBlockSize (select_step e (block_limits e) nHeight s)
                    = nBlockSize s + GetSerializeSize e tx mod 2 ^ 32 \<and>
                  nBlockSize s + GetSerializeSize e tx mod 2 ^ 32 < nBlockMaxSize (block_limits e)))"
proof -
  let ?lims = "block_limits e"
  have rng: "1000 \<le> nBlockMaxSize ?lims" "nBlockMaxSize ?lims < 2 ^ 32"
    using block_limits_range [of e] by simp_all
  have inv: "nBlockSize s < nBlockMaxSize ?lims \<or>
             (nBlockSize s = 1000 \<and> sel_vtx s = txs \<and> nBlockMaxSize ?lims = 1000)"
    using counter_invariant [OF assms refl rng(1)] .
  then have le: "nBlockSize s \<le> nBlockMaxSize ?lims" by auto
  have step: "(sel_vtx (select_step e ?lims nHeight s) = sel_vtx s \<and>
             nBlockSize (select_step e ?lims nHeight s) = nBlockSize s) \<or>
            (\<exists>tx. sel_vtx (select_step e ?lims nHeight s) = sel_vtx s @ [tx] \<and>
                  nBlockSize (select_step e ?lims nHeight s)
                    = nBlockSize s + GetSerializeSize e tx mod 2 ^ 32 \<and>
                  nBlockSize s + GetSerializeSize e tx mod 2 ^ 32 < nBlockMaxSize ?lims)"
    if ne: "vecPriority s \<noteq> []"
  proof -
    have nowrap: "(nBlockSize s + GetSerializeSize e tx mod 2 ^ 32) mod 2 ^ 64
                    = nBlockSize s + GetSerializeSize e tx mod 2 ^ 32" for tx
    proof -
      have "GetSerializeSize e tx mod 2 ^ 32 < (2 ^ 32 :: nat)" by simp
      moreover have "nBlockSize s < (2 ^ 32 :: nat)" using le rng(2) by simp
      ultimately have "nBlockSize s + GetSerializeSize e tx mod 2 ^ 32 < (2 ^ 64 :: nat)" by simp
      then show ?thesis by simp
    qed
    from select_step_cases [OF ne, of e ?lims nHeight] show ?thesis
      unfolding nowrap by auto
  qed
  from le inv step show ?thesis by blast
qed

text \<open>A build that admits one transaction of 250 bytes.\<close>

theorem block_size_counter_bounded_witness:
  "nBlockSize (select_transactions (ext0 :: unit Externals) () 0 [spend [5] 10000] [] [] []) = 1250 \<and>
   sel_vtx (select_transactions (ext0 :: unit Externals) () 0 [spend [5] 10000] [] [] [])
     = [spend [5] 10000] \<and>
   nBlockMaxSize (block_limits (ext0 :: unit Externals)) = 750000"
proof -
  let ?e = "ext0 :: unit Externals"
  have cc: "fst (collect_candidates ?e () 0 [spend [5] 10000] ([], {}))
              = [(0, 40000, spend [5] 10000)]"
    by (simp add: ext0_def spend_def)
  have vis: "visited ?e (block_limits ?e) (0 + 1)
               (initial_selection (block_limits ?e) () [(0, 40000, spend [5] 10000)] [] [] [])
               (select_transactions ?e () 0 [spend [5] 10000] [] [] [])"
    unfolding select_transactions_def Let_def cc
    by (rule select_loop_visited) (rule visited.entered)
  have run: "nBlockSize (select_transactions ?e () 0 [spend [5] 10000] [] [] []) = 1250 \<and>
             sel_vtx (select_transactions ?e () 0 [spend [5] 10000] [] [] [])
               = [spend [5] 10000]"
    by (simp add: eval_select ext0_def spend_def)
  have mx: "nBlockMaxSize (block_limits ?e) = 750000"
    by (simp add: block_limits_def ext0_def to_uint_def)
  from block_size_counter_bounded [OF vis] run mx show ?thesis by simp
qed

text \<open>
  C4 as stated fails when the size limit is clamped to 1000: the counter starts at
  \<open>nBlockMaxSize\<close>.
\<close>

theorem block_size_counter_reaches_maximum:
  "nBlockSize (select_transactions ext_tight () 0 [] [] [] []) = nBlockMaxSize (block_limits ext_tight)"
  by (simp add: select_transactions_def select_loop.simps initial_selection_def block_limits_def
        make_heap_def ext_tight_def ext0_def to_uint_def Let_def)

section \<open>Properties of ProcessBlockFound\<close>

text \<open>
  C8. A block whose \<open>hashPrevBlock\<close> is not the best-block hash is refused with the state
  untouched: the reserve key is not kept, no request counter is written, the block is
  not handed to \<open>ProcessNewBlock\<close> and no peer receives an inventory entry.
\<close>

theorem stale_block_has_no_effect:
  assumes "hashPrevBlock pblock \<noteq> g_best_block s"
  shows "ProcessBlockFound e pblock s = (False, s)"
  using assms by (simp add: ProcessBlockFound_def)

text \<open>The stale block of the scenario leaves every part of the state as it was.\<close>

theorem stale_block_has_no_effect_witness:
  "hashPrevBlock stale_block \<noteq> g_best_block node_at_42 \<and>
   ProcessBlockFound (ext0 :: unit Externals) stale_block node_at_42 = (False, node_at_42) \<and>
   \<not> keyKept (snd (ProcessBlockFound (ext0 :: unit Externals) stale_block node_at_42)) \<and>
   processedBlocks (snd (ProcessBlockFound (ext0 :: unit Externals) stale_block node_at_42)) = [] \<and>
   vNodes (snd (ProcessBlockFound (ext0 :: unit Externals) stale_block node_at_42)) = [[], []]"
proof -
  have st: "hashPrevBlock stale_block \<noteq> g_best_block node_at_42"
    by (simp add: stale_block_def node_at_42_def null_block_def)
  from stale_block_has_no_effect [OF st, of "ext0 :: unit Externals"] st show ?thesis
    by (simp add: node_at_42_def)
qed

text \<open>For comparison, a block on the best block is processed and announced.\<close>

lemma fresh_block_is_processed:
  "ProcessBlockFound (ext0 :: unit Externals) (null_block\<lparr>hashPrevBlock := 42\<rparr>) node_at_42 =
     (True, \<lparr>g_best_block = 42, keyKept = True, mapRequestCount = [0 \<mapsto> 0],
             blockFoundSignals = [0], processedBlocks = [null_block\<lparr>hashPrevBlock := 42\<rparr>],
             vNodes = [[0], [0]]\<rparr>)"
  by (simp add: ProcessBlockFound_def node_at_42_def ext0_def Let_def)

section \<open>Properties of the coin-stake search\<close>

lemma sign_pos_block_globals:
  "sign_pos_block e h b g = (r, g') \<Longrightarrow>
     nLastCoinStakeSearchTime g' = nLastCoinStakeSearchTime g \<and>
     coinStakeSearches g' = coinStakeSearches g"
  by (auto simp: sign_pos_block_def Let_def)

lemma assemble_block_globals:
  assumes "assemble_block e c mapTx v txNew txPubIn fPoS b1 g = (r, g')"
  shows "nLastCoinStakeSearchTime g' = nLastCoinStakeSearchTime g \<and>
         coinStakeSearches g' = coinStakeSearches g"
  using assms unfolding assemble_block_def Let_def
  by (auto split: build.splits option.splits prod.splits if_splits dest!: sign_pos_block_globals)

lemma init_search_time_facts:
  "nLastCoinStakeSearchTime (init_search_time e g) = Some (last_search_time e g)"
  "last_search_time e (init_search_time e g) = last_search_time e g"
  "coinStakeSearches (init_search_time e g) = coinStakeSearches g"
  by (simp_all add: init_search_time_def last_search_time_def split: option.splits)

lemma stake_search_skipped:
  assumes "uint (word_of_int (GetAdjustedTime e) :: uint32) < last_search_time e g"
  shows "stake_search e h b g = (None, g)"
  using assms by (simp add: stake_search_def Let_def)

lemma stake_search_attempted:
  assumes "last_search_time e g \<le> uint (word_of_int (GetAdjustedTime e) :: uint32)"
    and "stake_search e h b g = (ob, g')"
  shows "coinStakeSearches g' = coinStakeSearches g @
           [(GetNextWorkRequired e h (word_of_int (GetAdjustedTime e)),
             uint (word_of_int (GetAdjustedTime e) :: uint32) - last_search_time e g)] \<and>
         nLastCoinStakeSearchTime g' = Some (uint (word_of_int (GetAdjustedTime e) :: uint32))"
  using assms by (auto simp: stake_search_def Let_def split: option.splits)

text \<open>
  C10. In a proof-of-stake call on a chain with a tip, when the block time read as the
  search time is below the last coin-stake search time the builder returns no template
  and the wallet's \<open>CreateCoinStake\<close> is not called; a call of \<open>CreateCoinStake\<close> happens
  only in a proof-of-stake call whose search time is at least the last search time (and
  then exactly one call is made); and no call of \<open>CreateNewBlock\<close>, of either kind,
  decreases the last search time.
\<close>

theorem coinstake_search_gate:
  assumes run: "CreateNewBlock e c mapTx v spk pub priv fProofOfStake g = (r, g')"
  shows "(fProofOfStake \<and> c \<noteq> [] \<and>
            uint (word_of_int (GetAdjustedTime e) :: uint32) < last_search_time e g \<longrightarrow>
            r = NoTemplate \<and> coinStakeSearches g' = coinStakeSearches g) \<and>
         (coinStakeSearches g' \<noteq> coinStakeSearches g \<longrightarrow>
            fProofOfStake \<and>
            last_search_time e g \<le> uint (word_of_int (GetAdjustedTime e) :: uint32)) \<and>
         (fProofOfStake \<and> c \<noteq> [] \<and>
            last_search_time e g \<le> uint (word_of_int (GetAdjustedTime e) :: uint32) \<longrightarrow>
            coinStakeSearches g' = coinStakeSearches g @
              [(GetNextWorkRequired e (length c - 1) (word_of_int (GetAdjustedTime e)),
                uint (word_of_int (GetAdjustedTime e) :: uint32) - last_search_time e g)]) \<and>
         (\<forall>t. nLastCoinStakeSearchTime g = Some t \<longrightarrow>
            (\<exists>t'. nLastCoinStakeSearchTime g' = Some t' \<and> t \<le> t'))"
proof (cases "c = []")
  case True
  with run have "g' = g" by (simp add: CreateNewBlock_def)
  with True show ?thesis by simp
next
  case ne: False
  define tipHeight where "tipHeight = length c - 1"
  define txNew where "txNew = first_coinbase e tipHeight spk pub priv"
  define b0 where
    "b0 = null_block\<lparr>nVersion := (if MineBlocksOnDemand e then GetArg_blockversion e else 5),
                      vtx := [txNew]\<rparr>"
  define g1 where "g1 = init_search_time e g"
  define now where "now = uint (word_of_int (GetAdjustedTime e) :: uint32)"
  obtain ob g2 where st: "(if fProofOfStake then stake_search e tipHeight b0 g1 else (Some b0, g1)) = (ob, g2)"
    by (cases "if fProofOfStake then stake_search e tipHeight b0 g1 else (Some b0, g1)") auto
  have run0: "CreateNewBlock e c mapTx v spk pub priv fProofOfStake g =
                (case (if fProofOfStake then stake_search e tipHeight b0 g1 else (Some b0, g1)) of
                   (None, g2) \<Rightarrow> (NoTemplate, g2)
                 | (Some b1, g2) \<Rightarrow> assemble_block e c mapTx v txNew pub fProofOfStake b1 g2)"
    unfolding CreateNewBlock_def Let_def tipHeight_def txNew_def b0_def g1_def
    using ne by (simp only: if_False)
  have run': "(case ob of None \<Rightarrow> (NoTemplate, g2)
               | Some b1 \<Rightarrow> assemble_block e c mapTx v txNew pub fProofOfStake b1 g2) = (r, g')"
    using run unfolding run0 st by simp
  have keep: "nLastCoinStakeSearchTime g' = nLastCoinStakeSearchTime g2 \<and>
              coinStakeSearches g' = coinStakeSearches g2"
  proof (cases ob)
    case None
    with run' show ?thesis by simp
  next
    case (Some b1)
    with run' have "assemble_block e c mapTx v txNew pub fProofOfStake b1 g2 = (r, g')" by simp
    then show ?thesis by (rule assemble_block_globals)
  qed
  have l1: "last_search_time e g1 = last_search_time e g"
    and s1: "coinStakeSearches g1 = coinStakeSearches g"
    and n1: "nLastCoinStakeSearchTime g1 = Some (last_search_time e g)"
    by (simp_all add: g1_def init_search_time_facts)
  have mono: "\<exists>t'. nLastCoinStakeSearchTime g' = Some t' \<and> t \<le> t'"
    if t: "nLastCoinStakeSearchTime g = Some t" for t
  proof -
    have lt: "last_search_time e g = t" using t by (simp add: last_search_time_def)
    show ?thesis
    proof (cases "fProofOfStake \<and> last_search_time e g1 \<le> now")
      case True
      then have "stake_search e tipHeight b0 g1 = (ob, g2)" using st by simp
      from stake_search_attempted [OF _ this] True
      have "nLastCoinStakeSearchTime g2 = Some now" by (simp add: now_def)
      with keep True l1 lt show ?thesis by simp
    next
      case False
      then have "g2 = g1"
        using st stake_search_skipped [of e g1 tipHeight b0]
        by (auto simp: now_def split: if_splits)
      with keep n1 lt show ?thesis by simp
    qed
  qed
  have skip: "r = NoTemplate \<and> coinStakeSearches g' = coinStakeSearches g"
    if "fProofOfStake" "now < last_search_time e g"
  proof -
    have "stake_search e tipHeight b0 g1 = (None, g1)"
      using that l1 by (intro stake_search_skipped) (simp add: now_def)
    with st that have "ob = None" "g2 = g1" by simp_all
    with run' keep s1 show ?thesis by simp
  qed
  have att: "coinStakeSearches g' = coinStakeSearches g @
              [(GetNextWorkRequired e tipHeight (word_of_int (GetAdjustedTime e)),
                now - last_search_time e g)]"
    if "fProofOfStake" "last_search_time e g \<le> now"
  proof -
    have "stake_search e tipHeight b0 g1 = (ob, g2)" using st that by simp
    from stake_search_attempted [OF _ this] that l1 s1 keep show ?thesis
      by (simp add: now_def)
  qed
  have only: "fProofOfStake \<and> last_search_time e g \<le> now"
    if ch: "coinStakeSearches g' \<noteq> coinStakeSearches g"
  proof (rule ccontr)
    assume "\<not> (fProofOfStake \<and> last_search_time e g \<le> now)"
    then have "g2 = g1"
      using st stake_search_skipped [of e g1 tipHeight b0] l1
      by (auto simp: now_def split: if_splits)
    with keep s1 ch show False by simp
  qed
  show ?thesis
    using mono skip att only ne unfolding now_def tipHeight_def by blast
qed

text \<open>
  With the adjusted time at 1600000000: a last search time of 1700000000 gives no
  template and no search; one of 1500000000 gives a search over the interval 100000000
  and moves the last search time to 1600000000.
\<close>

theorem coinstake_search_gate_witness:
  "CreateNewBlock ext0 [plain_block] [] () [] [] [] True (globals_at (Some 1700000000))
     = (NoTemplate, globals_at (Some 1700000000)) \<and>
   fst (CreateNewBlock ext0 [plain_block] [] () [] [] [] True (globals_at (Some 1500000000)))
     = NoTemplate \<and>
   coinStakeSearches (snd (CreateNewBlock ext0 [plain_block] [] () [] [] [] True
                             (globals_at (Some 1500000000)))) = [(0, 100000000)] \<and>
   nLastCoinStakeSearchTime (snd (CreateNewBlock ext0 [plain_block] [] () [] [] [] True
                             (globals_at (Some 1500000000)))) = Some 1600000000"
proof -
  have now: "uint (word_of_int (GetAdjustedTime (ext0 :: unit Externals)) :: uint32) = 1600000000"
    by (simp add: ext0_def)
  obtain r g' where a: "CreateNewBlock ext0 [plain_block] [] () [] [] [] True
                          (globals_at (Some 1700000000)) = (r, g')"
    by (cases "CreateNewBlock ext0 [plain_block] [] () [] [] [] True (globals_at (Some 1700000000))")
  obtain r2 g2 where b: "CreateNewBlock ext0 [plain_block] [] () [] [] [] True
                          (globals_at (Some 1500000000)) = (r2, g2)"
    by (cases "CreateNewBlock ext0 [plain_block] [] () [] [] [] True (globals_at (Some 1500000000))")
  have ga: "g' = globals_at (Some 1700000000)"
    using a by (simp add: CreateNewBlock_def stake_search_def init_search_time_def
                  last_search_time_def globals_at_def Let_def now)
  have "r = NoTemplate"
    using coinstake_search_gate [OF a] by (simp add: now last_search_time_def globals_at_def)
  moreover have "coinStakeSearches g2 = [(0, 100000000)]"
    using coinstake_search_gate [OF b]
    by (simp add: now last_search_time_def globals_at_def) (simp add: ext0_def)
  moreover have "r2 = NoTemplate \<and> nLastCoinStakeSearchTime g2 = Some 1600000000"
    using b by (simp add: CreateNewBlock_def stake_search_def init_search_time_def
                  last_search_time_def globals_at_def Let_def now)
               (auto simp: ext0_def)
  ultimately show ?thesis using a b ga by simp
qed

section \<open>Properties of the proof-of-work coinbase\<close>

lemma admitted_after_given:
  assumes "visited e lims nHeight s0 s"
  shows "\<exists>admitted. sel_vtx s = sel_vtx s0 @ admitted"
  using assms
proof (induction rule: visited.induct)
  case entered
  show ?case by simp
next
  case (pass s)
  then obtain admitted where a: "sel_vtx s = sel_vtx s0 @ admitted" by blast
  from select_step_cases [OF pass.hyps(2), of e lims nHeight]
  consider "sel_vtx (select_step e lims nHeight s) = sel_vtx s"
    | entry :: TxPriority
        where "sel_vtx (select_step e lims nHeight s) = sel_vtx s @ [snd (snd entry)]"
    by blast
  then show ?case
  proof cases
    case 1
    with a show ?thesis by simp
  next
    case 2
    with a have "sel_vtx (select_step e lims nHeight s) = sel_vtx s0 @ (admitted @ [snd (snd entry)])"
      by simp
    then show ?thesis by blast
  qed
qed

lemma select_transactions_prefix:
  "\<exists>admitted. sel_vtx (select_transactions e v h mapTx txs fees sigops) = txs @ admitted"
proof -
  define lims where "lims = block_limits e"
  define s0 where "s0 = initial_selection lims v
                          (fst (collect_candidates e v h mapTx ([], {}))) txs fees sigops"
  have "visited e lims (h + 1) s0 (select_loop e lims (h + 1) s0)"
    by (rule select_loop_visited) (rule visited.entered)
  from admitted_after_given [OF this]
  show ?thesis
    by (simp add: select_transactions_def Let_def lims_def s0_def initial_selection_def)
qed

lemma and_then_Built:
  "and_then r f = Built y \<Longrightarrow> \<exists>x. r = Built x \<and> f x = Built y"
  by (cases r) (simp_all add: and_then_def)

lemma in_range_Built: "in_range r = Built y \<Longrightarrow> r = Some y"
  by (cases r) (simp_all add: in_range_def)

lemma or_null_Built: "or_null r = Built y \<Longrightarrow> r = Some y"
  by (cases r) (simp_all add: or_null_def)

lemma modify_tx_first:
  assumes "modify_tx 0 f b = Some b'" and "vtx b = tx0 # rest"
  shows "\<exists>tx0'. f tx0 = Some tx0' \<and> b' = b\<lparr>vtx := tx0' # rest\<rparr>"
  using assms by (auto simp: modify_tx_def at_index_def)

lemma fill_payee_vtx:
  assumes "fill_payee e txNew fees h b = Built b'"
  shows "vtx b' = vtx b \<and>
         (1 < length (vout (FillBlockPayee e txNew fees False)) \<longrightarrow>
            payee b' = scriptPubKey (vout (FillBlockPayee e txNew fees False) ! 1))"
  using assms
  by (auto simp: fill_payee_def Let_def split: if_splits dest!: and_then_Built)

lemma final_coinbase_pow:
  assumes "final_coinbase False fees nH b = Built b'"
    and "vtx b = tx0 # rest" and "vout tx0 = [out]"
  shows "\<exists>tx0'. vtx b' = tx0' # rest \<and> vout tx0' = [out\<lparr>nValue := nValue out + fees\<rparr>]"
proof -
  from assms(1) obtain b1 b2 where
    s1: "modify_tx 0 (modify_vin 0 (\<lambda>txin. txin\<lparr>scriptSig := [ScriptNum (int nH), OP_0]\<rparr>)) b = Some b1"
    and s2: "modify_tx 0 (\<lambda>tx. Some (tx\<lparr>txType := TX_TYPE_REVEAL_AMOUNT\<rparr>)) b1 = Some b2"
    and s3: "modify_tx 0 (modify_vout 0 (\<lambda>out. out\<lparr>nValue := nValue out + fees\<rparr>)) b2 = Some b'"
    unfolding final_coinbase_def
    by (auto dest!: and_then_Built in_range_Built)
  from modify_tx_first [OF s1 assms(2)] obtain t1 where
    t1: "modify_vin 0 (\<lambda>txin. txin\<lparr>scriptSig := [ScriptNum (int nH), OP_0]\<rparr>) tx0 = Some t1"
        "b1 = b\<lparr>vtx := t1 # rest\<rparr>"
    by blast
  have v1: "vout t1 = [out]" using t1(1) assms(3)
    by (auto simp: modify_vin_def modify_at_def split: if_splits)
  have "vtx b1 = t1 # rest" using t1(2) by simp
  from modify_tx_first [OF s2 this] have b2: "b2 = b1\<lparr>vtx := t1\<lparr>txType := TX_TYPE_REVEAL_AMOUNT\<rparr> # rest\<rparr>"
    by auto
  then have "vtx b2 = t1\<lparr>txType := TX_TYPE_REVEAL_AMOUNT\<rparr> # rest" by simp
  from modify_tx_first [OF s3 this] obtain t3 where
    t3: "modify_vout 0 (\<lambda>out. out\<lparr>nValue := nValue out + fees\<rparr>) (t1\<lparr>txType := TX_TYPE_REVEAL_AMOUNT\<rparr>) = Some t3"
        "b' = b2\<lparr>vtx := t3 # rest\<rparr>"
    by blast
  have "vout t3 = [out\<lparr>nValue := nValue out + fees\<rparr>]"
    using t3(1) v1 by (auto simp: modify_vout_def modify_at_def split: if_splits)
  with t3(2) show ?thesis by simp
qed

lemma commit_amount_first:
  assumes "commit_amount e pub b = Built b'"
    and "vtx b = tx0 # rest" and "vout tx0 = [out]"
  shows "\<exists>tx0' rest' out'. vtx b' = tx0' # rest' \<and> vout tx0' = [out'] \<and>
           nValue out' = nValue out \<and> scriptPubKey out' = scriptPubKey out"
proof (cases "IsProofOfWork e b")
  case True
  with assms obtain out1 where
    c: "commit_out e pub out = Some out1"
    and b': "b' = b\<lparr>vtx := (vtx b)[0 := tx0\<lparr>vout := (vout tx0)[0 := out1]\<rparr>]\<rparr>"
    unfolding commit_amount_def
    by (auto simp: at_index_def dest!: and_then_Built in_range_Built or_null_Built)
  from c have "nValue out1 = nValue out \<and> scriptPubKey out1 = scriptPubKey out"
    by (auto simp: commit_out_def)
  with b' assms(2,3) show ?thesis by simp
next
  case False
  with assms obtain tx1 where "b' = b\<lparr>vtx := (vtx b)[1 := tx1]\<rparr>"
    unfolding commit_amount_def Let_def
    by (auto simp: at_index_def dest!: and_then_Built in_range_Built or_null_Built split: if_splits)
  with assms(2,3) show ?thesis by simp
qed

lemma fill_header_vtx: "vtx (fill_header e c f b) = vtx b"
  by (simp add: fill_header_def Let_def)

lemma assemble_block_pow_coinbase:
  assumes run: "assemble_block e c mapTx v txNew pub False b1 g = (Built tmpl, g')"
    and b1: "vtx b1 = [txNew]" and out: "vout txNew = [out]"
  shows "\<exists>tx0 rest out'. vtx (block tmpl) = tx0 # rest \<and> vout tx0 = [out'] \<and>
           nValue out' = nValue out +
             nFees (select_transactions e v (length c - 1) mapTx [txNew] [-1] [-1]) \<and>
           scriptPubKey out' = scriptPubKey out \<and>
           (1 < length (vout (FillBlockPayee e txNew
                 (nFees (select_transactions e v (length c - 1) mapTx [txNew] [-1] [-1])) False)) \<longrightarrow>
              payee (block tmpl) = scriptPubKey (vout (FillBlockPayee e txNew
                 (nFees (select_transactions e v (length c - 1) mapTx [txNew] [-1] [-1])) False) ! 1))"
proof -
  define sel where "sel = select_transactions e v (length c - 1) mapTx [txNew] [-1] [-1]"
  define b2 where "b2 = b1\<lparr>vtx := sel_vtx sel\<rparr>"
  obtain admitted where adm: "sel_vtx sel = [txNew] @ admitted"
    using select_transactions_prefix [of e v "length c - 1" mapTx "[txNew]" "[-1]" "[-1]"]
    by (auto simp: sel_def)
  from run obtain b3 b6 where
    b3: "fill_payee e txNew (nFees sel) (length c - 1) b2 = Built b3"
    and filled: "and_then (final_coinbase False (nFees sel) (length c - 1 + 1) b3)
               (\<lambda>b4. and_then (commit_amount e pub b4) (\<lambda>b5. Built (fill_header e c False b5)))
             = Built b6"
    and tm: "block tmpl = b6"
    unfolding assemble_block_def Let_def sel_def b2_def b1
    by (auto split: build.splits option.splits)
  from filled obtain b4 b5 where
    f4: "final_coinbase False (nFees sel) (length c - 1 + 1) b3 = Built b4"
    and f5: "commit_amount e pub b4 = Built b5"
    and f6: "b6 = fill_header e c False b5"
    by (auto dest!: and_then_Built)
  have v3: "vtx b3 = txNew # admitted"
    using fill_payee_vtx [OF b3] adm by (simp add: b2_def)
  from final_coinbase_pow [OF f4 v3 out] obtain t4 where
    t4: "vtx b4 = t4 # admitted" "vout t4 = [out\<lparr>nValue := nValue out + nFees sel\<rparr>]"
    by blast
  from commit_amount_first [OF f5 t4] obtain t5 rest5 out5 where
    t5: "vtx b5 = t5 # rest5" "vout t5 = [out5]" "nValue out5 = nValue out + nFees sel"
        "scriptPubKey out5 = scriptPubKey out"
    by auto
  have py: "payee b4 = payee b3"
    using f4 unfolding final_coinbase_def
    by (auto simp: modify_tx_def split: option.splits dest!: and_then_Built in_range_Built)
  have py5: "payee b5 = payee b4"
    using f5 unfolding commit_amount_def Let_def
    by (auto split: if_splits dest!: and_then_Built in_range_Built or_null_Built)
  have py6: "payee b6 = payee b5"
    by (simp add: f6 fill_header_def Let_def)
  show ?thesis
    using t5 tm f6 fill_payee_vtx [OF b3] py py5 py6
    by (simp add: fill_header_vtx sel_def)
qed

text \<open>
  C7. In every proof-of-work build that returns a template, the coinbase of the returned
  block has exactly one output, which pays \<open>scriptPubKeyIn\<close> the block value plus the
  selected fees, whatever the payee collaborator did: it works on the local \<open>txNew\<close>,
  which is never copied back into the block. When it has created a second output, only
  that output's script reaches the block, in the \<open>payee\<close> member of the header.
\<close>

theorem payee_output_not_in_coinbase:
  assumes "CreateNewBlock e c mapTx v scriptPubKeyIn txPubIn txPrivIn False g = (Built tmpl, g')"
  shows "\<exists>tx0 rest out.
           vtx (block tmpl) = tx0 # rest \<and> vout tx0 = [out] \<and>
           scriptPubKey out = scriptPubKeyIn \<and>
           nValue out = GetBlockValue e (length c - 1) +
             nFees (select_transactions e v (length c - 1) mapTx
                      [first_coinbase e (length c - 1) scriptPubKeyIn txPubIn txPrivIn] [-1] [-1]) \<and>
           (1 < length (vout (FillBlockPayee e
                  (first_coinbase e (length c - 1) scriptPubKeyIn txPubIn txPrivIn)
                  (nFees (select_transactions e v (length c - 1) mapTx
                      [first_coinbase e (length c - 1) scriptPubKeyIn txPubIn txPrivIn] [-1] [-1]))
                  False)) \<longrightarrow>
              payee (block tmpl) = scriptPubKey (vout (FillBlockPayee e
                  (first_coinbase e (length c - 1) scriptPubKeyIn txPubIn txPrivIn)
                  (nFees (select_transactions e v (length c - 1) mapTx
                      [first_coinbase e (length c - 1) scriptPubKeyIn txPubIn txPrivIn] [-1] [-1]))
                  False) ! 1))"
proof -
  define txNew where "txNew = first_coinbase e (length c - 1) scriptPubKeyIn txPubIn txPrivIn"
  define b0 where
    "b0 = null_block\<lparr>nVersion := (if MineBlocksOnDemand e then GetArg_blockversion e else 5),
                      vtx := [txNew]\<rparr>"
  have ne: "c \<noteq> []" using assms by (auto simp: CreateNewBlock_def)
  have run: "assemble_block e c mapTx v txNew txPubIn False b0 (init_search_time e g) = (Built tmpl, g')"
    using assms ne unfolding CreateNewBlock_def Let_def txNew_def b0_def by simp
  define out where
    "out = empty_txout\<lparr>scriptPubKey := scriptPubKeyIn, txPub := txPubIn, txPriv := txPrivIn,
                       nValue := GetBlockValue e (length c - 1)\<rparr>"
  have o: "vout txNew = [out]"
    by (simp add: txNew_def first_coinbase_def new_coinbase_def out_def Let_def)
  have v0: "vtx b0 = [txNew]" by (simp add: b0_def)
  from assemble_block_pow_coinbase [OF run v0 o]
  show ?thesis
    unfolding txNew_def [symmetric] by (auto simp: out_def)
qed

lemma select_nothing:
  "select_transactions e v h [] txs fees sigops
     = initial_selection (block_limits e) v [] txs fees sigops"
  by (simp add: select_transactions_def select_loop.simps initial_selection_def Let_def)

text \<open>
  The collaborator splits the block value of 5000 into 3000 and 2000 for the payee; the
  returned block names the payee and pays all 5000 to the miner.
\<close>

theorem payee_output_not_in_coinbase_witness:
  "\<exists>tmpl g'. CreateNewBlock ext_payee [plain_block] [] () miner_script [] [] False (globals_at None)
                = (Built tmpl, g') \<and>
     length (vout (FillBlockPayee ext_payee (first_coinbase ext_payee 0 miner_script [] []) 0 False)) = 2 \<and>
     payee (block tmpl) = payee_script \<and>
     map (map nValue \<circ> vout) (vtx (block tmpl)) = [[5000]] \<and>
     map (map scriptPubKey \<circ> vout) (vtx (block tmpl)) = [[miner_script]]"
proof -
  note sel = select_nothing
  obtain r g' where run: "CreateNewBlock ext_payee [plain_block] [] () miner_script [] [] False
                            (globals_at None) = (r, g')"
    by (cases "CreateNewBlock ext_payee [plain_block] [] () miner_script [] [] False (globals_at None)")
  have built: "\<exists>tmpl. r = Built tmpl \<and> payee (block tmpl) = payee_script"
    using run
    by (simp add: CreateNewBlock_def assemble_block_def sel initial_selection_def fill_payee_def
          final_coinbase_def commit_amount_def commit_out_def fill_header_def first_coinbase_def
          new_coinbase_def modify_tx_def modify_vin_def modify_vout_def modify_at_def at_index_def
          and_then_def in_range_def or_null_def init_search_time_def globals_at_def null_block_def
          empty_txout_def ext_payee_def ext0_def payee_script_def Let_def)
       auto
  then obtain tmpl where t: "r = Built tmpl" "payee (block tmpl) = payee_script" by blast
  from payee_output_not_in_coinbase [OF run [unfolded t(1)]]
  obtain tx0 rest out where
    p: "vtx (block tmpl) = tx0 # rest" "vout tx0 = [out]" "scriptPubKey out = miner_script"
       "nValue out = 5000"
    by (auto simp: sel initial_selection_def ext_payee_def ext0_def)
  have "rest = []"
    using run [unfolded t(1)] p(1)
    by (simp add: CreateNewBlock_def assemble_block_def sel initial_selection_def fill_payee_def
          final_coinbase_def commit_amount_def commit_out_def fill_header_def first_coinbase_def
          new_coinbase_def modify_tx_def modify_vin_def modify_vout_def modify_at_def at_index_def
          and_then_def in_range_def or_null_def init_search_time_def globals_at_def null_block_def
          empty_txout_def ext_payee_def ext0_def payee_script_def Let_def)
       auto
  moreover have "length (vout (FillBlockPayee ext_payee (first_coinbase ext_payee 0 miner_script [] []) 0 False)) = 2"
    by (simp add: ext_payee_def ext0_def first_coinbase_def new_coinbase_def Let_def)
  ultimately show ?thesis using run t p by simp
qed

end
